theory Spec2Isabelle
  imports Complex_Main "HOL-Library.Word" "HOL-Library.Log_Nat"
begin

unbundle bit_operations_syntax

section \<open>The Player (package player, type Player)\<close>

text \<open>
  A channel of type \<open>chan struct{}\<close> that the code only ever closes and polls
  (\<open>stopChan\<close>, \<open>skipChan\<close>, \<open>done\<close>) is modelled by its state. The buffered
  channel \<open>volumeChangeChan\<close> (capacity 1) is modelled by the number of values it holds.
  Songs are pointers the Player never looks into: the type of songs is a parameter.
  \<open>VoiceConn\<close>, \<open>encoding\<close> and \<open>stream\<close> are pointers that may be nil: options.
  The field \<open>done\<close> is named \<open>done_ch\<close> here.
\<close>

datatype chan = Open | Closed

type_synonym EncodeSession = nat
type_synonym StreamingSession = nat

record 'song Player =
  GuildID :: string
  VoiceConn :: "string option"
  Queue :: "'song list"
  NowPlaying :: "'song option"
  IsPlaying :: bool
  IsPaused :: bool
  Volume :: int
  History :: "'song list"
  LastMsgID :: string
  LastChannelID :: string
  stopChan :: chan
  skipChan :: chan
  volumeChangeChan :: nat
  done_ch :: chan
  encoding :: "EncodeSession option"
  stream :: "StreamingSession option"

text \<open>Calls the Player makes on its collaborators (Discord session, voice connection,
  encoder, HTTP body), in the order they happen.\<close>

datatype effect =
    Disconnect
  | ChannelMessageEdit string string string
  | Speaking bool
  | SetPaused bool
  | EncodeCleanup EncodeSession
  | BodyClose
  | ScalerSetVolume int

definition NewPlayer :: "string \<Rightarrow> int \<Rightarrow> 'song Player" where
  "NewPlayer guildID defaultVolume =
     \<lparr> GuildID = guildID, VoiceConn = None, Queue = [], NowPlaying = None,
       IsPlaying = False, IsPaused = False, Volume = defaultVolume, History = [],
       LastMsgID = [], LastChannelID = [],
       stopChan = Open, skipChan = Open, volumeChangeChan = 0, done_ch = Open,
       encoding = None, stream = None \<rparr>"

definition SetLastMessage :: "string \<Rightarrow> string \<Rightarrow> 'song Player \<Rightarrow> 'song Player" where
  "SetLastMessage msgID channelID p = p\<lparr>LastMsgID := msgID, LastChannelID := channelID\<rparr>"

definition Enqueue :: "'song \<Rightarrow> 'song Player \<Rightarrow> 'song Player" where
  "Enqueue song p = p\<lparr>Queue := Queue p @ [song]\<rparr>"

definition GetQueue :: "'song Player \<Rightarrow> 'song list" where
  "GetQueue p = Queue p"

text \<open>\<open>dequeue\<close> returns nil on an empty queue.\<close>

definition dequeue :: "'song Player \<Rightarrow> 'song option \<times> 'song Player" where
  "dequeue p =
     (case Queue p of
        [] \<Rightarrow> (None, p)
      | song # rest \<Rightarrow> (Some song, p\<lparr>Queue := rest\<rparr>))"

text \<open>\<open>Skip\<close>: under the lock, close \<open>skipChan\<close> unless it is closed already.\<close>

definition Skip :: "'song Player \<Rightarrow> 'song Player" where
  "Skip p = (case skipChan p of Closed \<Rightarrow> p | Open \<Rightarrow> p\<lparr>skipChan := Closed\<rparr>)"

definition PlayPrevious :: "'song Player \<Rightarrow> 'song Player" where
  "PlayPrevious p =
     (if length (History p) = 0 then p
      else
        let prevSong = History p ! (length (History p) - 1);
            p1 = p\<lparr>History := take (length (History p) - 1) (History p)\<rparr>;
            p2 = (case NowPlaying p1 of
                    Some cur \<Rightarrow> p1\<lparr>Queue := [cur] @ Queue p1\<rparr>
                  | None \<Rightarrow> p1);
            p3 = p2\<lparr>Queue := [prevSong] @ Queue p2\<rparr>
        in Skip p3)"

text \<open>\<open>Pause\<close> and \<open>Resume\<close> set the flag and, when a stream is stored, tell it.\<close>

definition Pause :: "'song Player \<Rightarrow> 'song Player \<times> effect list" where
  "Pause p =
     (let p1 = p\<lparr>IsPaused := True\<rparr>
      in (p1, case stream p1 of Some s \<Rightarrow> [SetPaused True] | None \<Rightarrow> []))"

definition Resume :: "'song Player \<Rightarrow> 'song Player \<times> effect list" where
  "Resume p =
     (let p1 = p\<lparr>IsPaused := False\<rparr>
      in (p1, case stream p1 of Some s \<Rightarrow> [SetPaused False] | None \<Rightarrow> []))"

text \<open>
  \<open>SetVolume\<close>: clamp, store under the lock, then a non-blocking send on
  \<open>volumeChangeChan\<close> (\<open>select\<close> with a \<open>default\<close> branch): the send succeeds when
  the buffer of capacity 1 has room and is skipped otherwise. Go's \<open>int\<close> is a subset of
  the integers and the function only compares and stores it.
\<close>

definition volumeChangeCap :: nat where
  "volumeChangeCap = 1"

definition SetVolume :: "int \<Rightarrow> 'song Player \<Rightarrow> 'song Player" where
  "SetVolume vol p =
     (let vol1 = (if vol < 0 then 0 else vol);
          vol2 = (if vol1 > 256 then 256 else vol1);
          p1 = p\<lparr>Volume := vol2\<rparr>
      in if volumeChangeChan p1 < volumeChangeCap
         then p1\<lparr>volumeChangeChan := volumeChangeChan p1 + 1\<rparr>
         else p1)"


text \<open>
  \<open>Start\<close>. The result of \<open>ChannelVoiceJoin\<close> is an input of the model
  (\<open>join_ok\<close>). \<open>Launched\<close> says that \<open>go p.playLoop()\<close> was executed.
\<close>

datatype start_result = AlreadyPlaying | JoinFailed | Launched

definition Start :: "string \<Rightarrow> bool \<Rightarrow> 'song Player \<Rightarrow> start_result \<times> 'song Player" where
  "Start channelID join_ok p =
     (if IsPlaying p then (AlreadyPlaying, p)
      else
        let p1 = p\<lparr>IsPlaying := True\<rparr>
        in if \<not> join_ok then (JoinFailed, p1\<lparr>IsPlaying := False\<rparr>)
           else (Launched, p1\<lparr>VoiceConn := Some channelID\<rparr>))"

text \<open>
  \<open>Stop\<close> in its three parts. \<open>Stop_signal\<close> is the code before the receive
  \<open><-p.done\<close>: the Queue is set to nil and \<open>stopChan\<close> is closed unless the
  \<open>select\<close> finds it closed. \<open>Stop_finish\<close> is the code after the receive. The
  receive itself returns only when \<open>done\<close> is closed; \<open>Stop\<close> is the call run on its
  own, with no other goroutine taking a step: \<open>None\<close> says that the receive blocks.
  The text of the message edit is written without its leading symbol.
\<close>

definition Stop_signal :: "'song Player \<Rightarrow> 'song Player" where
  "Stop_signal p =
     (let p1 = p\<lparr>Queue := []\<rparr>
      in case stopChan p1 of Closed \<Rightarrow> p1 | Open \<Rightarrow> p1\<lparr>stopChan := Closed\<rparr>)"

definition Stop_disconnect :: "'song Player \<Rightarrow> 'song Player \<times> effect list" where
  "Stop_disconnect p =
     (case VoiceConn p of
        Some vc \<Rightarrow> (p\<lparr>VoiceConn := None\<rparr>, [Disconnect])
      | None \<Rightarrow> (p, []))"

definition Stop_reset :: "'song Player \<Rightarrow> 'song Player \<times> effect list" where
  "Stop_reset p =
     (let p1 = p\<lparr>IsPlaying := False, NowPlaying := None\<rparr>
      in if LastMsgID p1 \<noteq> [] \<and> LastChannelID p1 \<noteq> []
         then (p1\<lparr>LastMsgID := [], LastChannelID := []\<rparr>,
               [ChannelMessageEdit (LastChannelID p1) (LastMsgID p1) ''**Stopped.**''])
         else (p1, []))"

definition Stop_finish :: "'song Player \<Rightarrow> 'song Player \<times> effect list" where
  "Stop_finish p =
     (let (p1, es1) = Stop_disconnect p;
          (p2, es2) = Stop_reset p1
      in (p2, es1 @ es2))"

definition Stop :: "'song Player \<Rightarrow> ('song Player \<times> effect list) option" where
  "Stop p =
     (let p1 = Stop_signal p
      in if done_ch p1 = Closed then Some (Stop_finish p1) else None)"

text \<open>
  The operations a caller can run on a Player without launching the playback loop: every
  public operation but a \<open>Start\<close> whose join succeeds, and the part of \<open>Stop\<close> before
  its wait.
\<close>

datatype 'song call =
    CEnqueue 'song
  | CSkip
  | CPlayPrevious
  | CPause
  | CResume
  | CSetVolume int
  | CSetLastMessage string string
  | CStartJoinFails string
  | CStopSignal

fun call_step :: "'song call \<Rightarrow> 'song Player \<Rightarrow> 'song Player" where
  "call_step (CEnqueue song) p = Enqueue song p"
| "call_step CSkip p = Skip p"
| "call_step CPlayPrevious p = PlayPrevious p"
| "call_step CPause p = fst (Pause p)"
| "call_step CResume p = fst (Resume p)"
| "call_step (CSetVolume vol) p = SetVolume vol p"
| "call_step (CSetLastMessage msgID channelID) p = SetLastMessage msgID channelID p"
| "call_step (CStartJoinFails channelID) p = snd (Start channelID False p)"
| "call_step CStopSignal p = Stop_signal p"

fun calls :: "'song call list \<Rightarrow> 'song Player \<Rightarrow> 'song Player" where
  "calls [] p = p"
| "calls (c # cs) p = calls cs (call_step c p)"


section \<open>The playback loop (Player.playLoop, Player.streamSong)\<close>

text \<open>
  \<open>streamSong\<close>. What the collaborators answer is an input of the model: \<open>song_setup\<close>
  says how far the preparation of the song gets (the HTTP fetch, \<open>ReadWavHeader\<close>,
  \<open>EncodeMem\<close>), and with \<open>SessionCreated\<close> which encoding session and which stream
  the song gets. \<open>site\<close> names the calls on the collaborators, from \<open>EncodeMem\<close> on,
  at which a panic is considered: \<open>p.VoiceConn.Speaking(true)\<close>, \<open>NewStream\<close>,
  \<open>encodingSession.Cleanup()\<close> in \<open>cleanupSession\<close>, the
  \<open>p.VoiceConn.Speaking(false)\<close> that follows \<open>cleanupSession()\<close>, and the two
  deferred calls. Which of these calls panic is an input (\<open>env_panics\<close>); a call that
  panics is not listed among the calls made. The deferred calls run on every return and on
  a panic, last registered first: \<open>resp.Body.Close()\<close>, then
  \<open>p.VoiceConn.Speaking(false)\<close>; when one of them panics the other still runs, and
  the function ends in a panic.
\<close>

datatype song_setup = FetchFails | HeaderFails | EncodeFails | SessionCreated EncodeSession StreamingSession

datatype site =
    AtSpeakingTrue
  | AtNewStream
  | AtCleanup
  | AtSpeakingFalse
  | AtDeferredClose
  | AtDeferredSpeaking

datatype outcome = Returned | Panicked | Waiting

definition deferred_calls :: "effect list" where
  "deferred_calls = [BodyClose, Speaking False]"

text \<open>
  The deferred calls at the end of \<open>streamSong\<close>: the calls made and whether one of
  them panicked. \<open>closes\<close> says whether \<open>resp.Body.Close()\<close> was registered (the
  fetch succeeded). \<open>leave\<close> ends the function with them: the outcome is a panic when
  the body panicked or a deferred call did.
\<close>

definition run_deferred :: "(site \<Rightarrow> bool) \<Rightarrow> bool \<Rightarrow> effect list \<times> bool" where
  "run_deferred panics closes =
     ((if closes \<and> \<not> panics AtDeferredClose then [BodyClose] else []) @
      (if panics AtDeferredSpeaking then [] else [Speaking False]),
      (closes \<and> panics AtDeferredClose) \<or> panics AtDeferredSpeaking)"

definition leave ::
    "(site \<Rightarrow> bool) \<Rightarrow> bool \<Rightarrow> outcome \<Rightarrow> 'song Player \<Rightarrow> effect list \<Rightarrow>
     outcome \<times> 'song Player \<times> effect list" where
  "leave panics closes r p es =
     (case run_deferred panics closes of
        (ds, deferred_panic) \<Rightarrow> (if deferred_panic then Panicked else r, p, es @ ds))"

definition cleanupSession :: "EncodeSession \<Rightarrow> 'song Player \<Rightarrow> 'song Player \<times> effect list" where
  "cleanupSession encodingSession p =
     (if encoding p = Some encodingSession
      then (p\<lparr>encoding := None, stream := None\<rparr>, [EncodeCleanup encodingSession])
      else (p, [EncodeCleanup encodingSession]))"

text \<open>
  The \<open>select\<close> of the control loop. A case can be taken only when its channel is
  ready: \<open>stopChan\<close> and \<open>skipChan\<close> when closed, \<open>volumeChangeChan\<close> when it
  holds a value; \<open>doneChan\<close> belongs to the stream and is ready when the stream says so
  (\<open>SelDone e\<close>, \<open>e\<close> telling whether it reports an error other than EOF). The result
  is \<open>shouldReturn\<close>, the Player and the calls made; \<open>None\<close> when the case is not
  ready.
\<close>

datatype select_case = SelStop | SelSkip | SelVolume | SelDone bool

definition select_step ::
    "select_case \<Rightarrow> 'song Player \<Rightarrow> (bool \<times> 'song Player \<times> effect list) option" where
  "select_step c p =
     (case c of
        SelStop \<Rightarrow> (if stopChan p = Closed then Some (True, p, []) else None)
      | SelSkip \<Rightarrow> (if skipChan p = Closed then Some (True, p, []) else None)
      | SelVolume \<Rightarrow>
          (if volumeChangeChan p > 0
           then Some (False, p\<lparr>volumeChangeChan := volumeChangeChan p - 1\<rparr>,
                      [ScalerSetVolume (Volume p)])
           else None)
      | SelDone e \<Rightarrow> Some (True, p, []))"

text \<open>
  The control loop run against a schedule: before each wake-up of the \<open>select\<close> other
  goroutines run some operations on the Player, then the \<open>select\<close> takes the case named.
  \<open>Waiting\<close>: the schedule is used up, or names a case that is not ready, and the loop
  is still in its \<open>select\<close>.
\<close>

datatype 'song wake = Wake "'song call list" select_case

fun control_loop :: "'song wake list \<Rightarrow> 'song Player \<Rightarrow> outcome \<times> 'song Player \<times> effect list" where
  "control_loop [] p = (Waiting, p, [])"
| "control_loop (Wake cs c # ws) p =
     (case select_step c (calls cs p) of
        None \<Rightarrow> (Waiting, calls cs p, [])
      | Some (shouldReturn, p1, es) \<Rightarrow>
          if shouldReturn then (Returned, p1, es)
          else (case control_loop ws p1 of (r, p2, es2) \<Rightarrow> (r, p2, es @ es2)))"

record 'song env =
  env_setup :: song_setup
  env_panics :: "site \<Rightarrow> bool"
  env_wakes :: "'song wake list"

definition streamSong ::
    "'song env \<Rightarrow> 'song \<Rightarrow> 'song Player \<Rightarrow> outcome \<times> 'song Player \<times> effect list" where
  "streamSong env song p =
     (case env_setup env of
        FetchFails \<Rightarrow> leave (env_panics env) False Returned p []
      | HeaderFails \<Rightarrow> leave (env_panics env) True Returned p []
      | EncodeFails \<Rightarrow> leave (env_panics env) True Returned p []
      | SessionCreated encodingSession strm \<Rightarrow>
          let p1 = p\<lparr>encoding := Some encodingSession\<rparr>
          in if env_panics env AtSpeakingTrue then leave (env_panics env) True Panicked p1 []
             else
               let es1 = [Speaking True, ScalerSetVolume (Volume p1)]
               in if env_panics env AtNewStream then leave (env_panics env) True Panicked p1 es1
                  else
                    (case control_loop (env_wakes env) (p1\<lparr>stream := Some strm\<rparr>) of
                       (Returned, p2, es2) \<Rightarrow>
                         if env_panics env AtCleanup
                         then leave (env_panics env) True Panicked p2 (es1 @ es2)
                         else
                           let (p3, es3) = cleanupSession encodingSession p2
                           in if env_panics env AtSpeakingFalse
                              then leave (env_panics env) True Panicked p3 (es1 @ es2 @ es3)
                              else leave (env_panics env) True Returned p3
                                     (es1 @ es2 @ es3 @ [Speaking False])
                     | (r, p2, es2) \<Rightarrow> (r, p2, es1 @ es2)))"

text \<open>
  \<open>playLoop\<close>. \<open>playLoop_head\<close> is one pass from the top of the \<open>for\<close> to the call
  of \<open>streamSong\<close> or to the \<open>return\<close>; \<open>playLoop_after_song\<close> is the code after
  \<open>streamSong\<close> returns; \<open>close_done\<close> is the deferred \<open>close(p.done)\<close>, which
  panics when the channel is closed already (\<open>None\<close>).
\<close>

datatype 'song head_result = HeadStop | HeadEmpty | HeadPlay 'song

definition playLoop_head :: "'song Player \<Rightarrow> 'song head_result \<times> 'song Player \<times> effect list" where
  "playLoop_head p =
     (if stopChan p = Closed then (HeadStop, p, [])
      else
        (case dequeue p of
           (None, p1) \<Rightarrow>
             let p2 = p1\<lparr>IsPlaying := False, NowPlaying := None\<rparr>;
                 (p3, es1) = (case VoiceConn p2 of
                                Some vc \<Rightarrow> (p2\<lparr>VoiceConn := None\<rparr>, [Disconnect])
                              | None \<Rightarrow> (p2, []))
             in if LastMsgID p3 \<noteq> [] \<and> LastChannelID p3 \<noteq> []
                then (HeadEmpty, p3\<lparr>LastMsgID := [], LastChannelID := []\<rparr>,
                      es1 @ [ChannelMessageEdit (LastChannelID p3) (LastMsgID p3) ''**Queue ended.**''])
                else (HeadEmpty, p3, es1)
         | (Some song, p1) \<Rightarrow> (HeadPlay song, p1\<lparr>NowPlaying := Some song, IsPlaying := True\<rparr>, [])))"

definition playLoop_after_song :: "'song \<Rightarrow> 'song Player \<Rightarrow> 'song Player" where
  "playLoop_after_song song p =
     (let h = History p @ [song];
          h1 = (if length h > 50 then drop 1 h else h)
      in p\<lparr>History := h1, skipChan := Open, volumeChangeChan := 0\<rparr>)"

definition close_done :: "'song Player \<Rightarrow> 'song Player option" where
  "close_done p = (case done_ch p of Open \<Rightarrow> Some (p\<lparr>done_ch := Closed\<rparr>) | Closed \<Rightarrow> None)"


section \<open>The goroutines of one Player, interleaved\<close>

text \<open>
  The state of the system around one Player: the Player, where each \<open>playLoop\<close>
  goroutine stands (\<open>loops\<close>), where each call of \<open>Stop\<close> stands (\<open>stops\<close>), the
  calls made on the collaborators so far, and whether a goroutine has panicked (nothing
  recovers a panic, so the process is gone then).

  A call of \<open>Stop\<close> takes its steps one at a time: \<open>SClear\<close> (the Queue is set to nil
  under the lock), \<open>SSelect\<close> (the \<open>select\<close> polls \<open>stopChan\<close>), \<open>SClose\<close>
  (the \<open>default\<close> branch runs \<open>close(p.stopChan)\<close>, which panics on a closed
  channel), \<open>SWait\<close> (the receive from \<open>done\<close>, possible only when it is closed),
  \<open>SDisconnect\<close> and \<open>SReset\<close>. The \<open>select\<close> and the \<open>close\<close> are two
  steps: the code holds no lock there.

  A \<open>playLoop\<close> goroutine is at the top of its \<open>for\<close> (\<open>LTop\<close>), in the
  \<open>select\<close> of \<open>streamSong\<close> (\<open>LSelect\<close>), or gone (\<open>LExited\<close>). Its steps are
  coarser than the code's: from the top of the loop to the \<open>select\<close> or to the exit, and
  one wake-up of the \<open>select\<close>; every run of this system is a run of the code.
\<close>

datatype stop_pc = SClear | SSelect | SClose | SWait | SDisconnect | SReset | SReturned

datatype 'song loop_pc = LTop | LSelect 'song EncodeSession | LExited

record 'song System =
  plr :: "'song Player"
  loops :: "'song loop_pc list"
  stops :: "stop_pc list"
  effects :: "effect list"
  crashed :: bool

definition init_System :: "'song Player \<Rightarrow> 'song System" where
  "init_System p = \<lparr> plr = p, loops = [], stops = [], effects = [], crashed = False \<rparr>"

datatype 'song label =
    Call "'song call"
  | CallStart string bool
  | BeginStop
  | StopStep nat
  | LoopHead nat song_setup
  | LoopSelect nat select_case

text \<open>One step of a call of \<open>Stop\<close>: the next place, the Player, the calls made, and
  whether the step panicked. \<open>None\<close>: the step cannot be taken now.\<close>

definition stop_step ::
    "stop_pc \<Rightarrow> 'song Player \<Rightarrow> (stop_pc \<times> 'song Player \<times> effect list \<times> bool) option" where
  "stop_step pc p =
     (case pc of
        SClear \<Rightarrow> Some (SSelect, p\<lparr>Queue := []\<rparr>, [], False)
      | SSelect \<Rightarrow> Some (if stopChan p = Closed then SWait else SClose, p, [], False)
      | SClose \<Rightarrow>
          (case stopChan p of
             Open \<Rightarrow> Some (SWait, p\<lparr>stopChan := Closed\<rparr>, [], False)
           | Closed \<Rightarrow> Some (SClose, p, [], True))
      | SWait \<Rightarrow> (if done_ch p = Closed then Some (SDisconnect, p, [], False) else None)
      | SDisconnect \<Rightarrow> (let (p1, es) = Stop_disconnect p in Some (SReset, p1, es, False))
      | SReset \<Rightarrow> (let (p1, es) = Stop_reset p in Some (SReturned, p1, es, False))
      | SReturned \<Rightarrow> None)"

text \<open>The exit of \<open>playLoop\<close>: the deferred \<open>close(p.done)\<close>.\<close>

definition loop_exit :: "nat \<Rightarrow> effect list \<Rightarrow> 'song Player \<Rightarrow> 'song System \<Rightarrow> 'song System" where
  "loop_exit i es p s =
     (case close_done p of
        Some p1 \<Rightarrow> s\<lparr>plr := p1, loops := (loops s)[i := LExited], effects := effects s @ es\<rparr>
      | None \<Rightarrow> s\<lparr>plr := p, loops := (loops s)[i := LExited], effects := effects s @ es,
                  crashed := True\<rparr>)"

definition loop_head :: "nat \<Rightarrow> song_setup \<Rightarrow> 'song System \<Rightarrow> 'song System" where
  "loop_head i su s =
     (case playLoop_head (plr s) of
        (HeadStop, p1, es) \<Rightarrow> loop_exit i es p1 s
      | (HeadEmpty, p1, es) \<Rightarrow> loop_exit i es p1 s
      | (HeadPlay song, p1, es) \<Rightarrow>
          (case streamSong \<lparr>env_setup = su, env_panics = (\<lambda>c. False), env_wakes = []\<rparr> song p1 of
             (Waiting, p2, es2) \<Rightarrow>
               s\<lparr>plr := p2,
                 loops := (loops s)[i := (case su of SessionCreated enc strm \<Rightarrow> LSelect song enc
                                          | _ \<Rightarrow> LTop)],
                 effects := effects s @ es @ es2\<rparr>
           | (r, p2, es2) \<Rightarrow>
               s\<lparr>plr := playLoop_after_song song p2, effects := effects s @ es @ es2\<rparr>))"

definition loop_select ::
    "nat \<Rightarrow> 'song \<Rightarrow> EncodeSession \<Rightarrow> select_case \<Rightarrow> 'song System \<Rightarrow> 'song System option" where
  "loop_select i song enc c s =
     (case select_step c (plr s) of
        None \<Rightarrow> None
      | Some (shouldReturn, p1, es) \<Rightarrow>
          if shouldReturn
          then
            let (p2, es2) = cleanupSession enc p1
            in Some (s\<lparr>plr := playLoop_after_song song p2, loops := (loops s)[i := LTop],
                      effects := effects s @ es @ es2 @ [Speaking False] @ deferred_calls\<rparr>)
          else Some (s\<lparr>plr := p1, effects := effects s @ es\<rparr>))"

definition step :: "'song label \<Rightarrow> 'song System \<Rightarrow> 'song System option" where
  "step l s =
     (if crashed s then None
      else
        (case l of
           Call c \<Rightarrow> Some (s\<lparr>plr := call_step c (plr s)\<rparr>)
         | CallStart channelID join_ok \<Rightarrow>
             (case Start channelID join_ok (plr s) of
                (Launched, p1) \<Rightarrow> Some (s\<lparr>plr := p1, loops := loops s @ [LTop]\<rparr>)
              | (r, p1) \<Rightarrow> Some (s\<lparr>plr := p1\<rparr>))
         | BeginStop \<Rightarrow> Some (s\<lparr>stops := stops s @ [SClear]\<rparr>)
         | StopStep i \<Rightarrow>
             (if i < length (stops s)
              then (case stop_step (stops s ! i) (plr s) of
                      Some (pc, p1, es, panic) \<Rightarrow>
                        Some (s\<lparr>plr := p1, stops := (stops s)[i := pc],
                                effects := effects s @ es, crashed := panic\<rparr>)
                    | None \<Rightarrow> None)
              else None)
         | LoopHead i su \<Rightarrow>
             (if i < length (loops s) \<and> loops s ! i = LTop then Some (loop_head i su s) else None)
         | LoopSelect i c \<Rightarrow>
             (if i < length (loops s)
              then (case loops s ! i of
                      LSelect song enc \<Rightarrow> loop_select i song enc c s
                    | _ \<Rightarrow> None)
              else None)))"

fun run :: "'song label list \<Rightarrow> 'song System \<Rightarrow> 'song System option" where
  "run [] s = Some s"
| "run (l # ls) s = (case step l s of Some s1 \<Rightarrow> run ls s1 | None \<Rightarrow> None)"

section \<open>The Manager (package player, type Manager)\<close>

text \<open>
  The registry maps a guild to its Player. \<open>Remove\<close> deletes the entry under the
  registry lock (\<open>Remove_detach\<close>) and then calls \<open>Stop\<close> on the Player it found;
  \<open>None\<close> says that this \<open>Stop\<close>, and so \<open>Remove\<close>, blocks. \<open>Shutdown\<close> runs \<open>go p.Stop()\<close> for every registered Player and
  returns: the result is the registry, which the loop does not touch, and the Players
  whose \<open>Stop\<close> was started in a goroutine of its own.
\<close>

record 'song Manager =
  players :: "string \<rightharpoonup> 'song Player"

definition NewManager :: "'song Manager" where
  "NewManager = \<lparr> players = Map.empty \<rparr>"

definition GetPlayer :: "string \<Rightarrow> 'song Manager \<Rightarrow> 'song Player option" where
  "GetPlayer guildID m = players m guildID"

definition GetOrCreatePlayer ::
    "string \<Rightarrow> int \<Rightarrow> 'song Manager \<Rightarrow> 'song Player \<times> 'song Manager" where
  "GetOrCreatePlayer guildID defaultVolume m =
     (case players m guildID of
        Some p \<Rightarrow> (p, m)
      | None \<Rightarrow>
          let p = NewPlayer guildID defaultVolume
          in (p, m\<lparr>players := (players m)(guildID \<mapsto> p)\<rparr>))"

definition Remove_detach ::
    "string \<Rightarrow> 'song Manager \<Rightarrow> 'song Player option \<times> 'song Manager" where
  "Remove_detach guildID m =
     (case players m guildID of
        Some p \<Rightarrow> (Some p, m\<lparr>players := (players m)(guildID := None)\<rparr>)
      | None \<Rightarrow> (None, m))"

definition Remove :: "string \<Rightarrow> 'song Manager \<Rightarrow> ('song Manager \<times> effect list) option" where
  "Remove guildID m =
     (case Remove_detach guildID m of
        (Some p, m1) \<Rightarrow>
          (case Stop p of
             Some (p1, es) \<Rightarrow> Some (m1, es)
           | None \<Rightarrow> None)
      | (None, m1) \<Rightarrow> Some (m1, []))"

definition Shutdown :: "'song Manager \<Rightarrow> 'song Manager \<times> 'song Player set" where
  "Shutdown m = (m, ran (players m))"

section \<open>The header parser (ReadWavHeader)\<close>

text \<open>
  The reader is the list of bytes still to come; a read past the end is what ends the
  stream (\<open>io.EOF\<close>, or \<open>io.ErrUnexpectedEOF\<close> from \<open>io.ReadFull\<close> after a partial
  read). Each error return of the source is a value of \<open>wav_error\<close>.
  \<open>io.ReadFull\<close> of a buffer of \<open>n\<close> bytes gives the bytes and the rest of the
  stream; \<open>io.CopyN(io.Discard, r, n)\<close> gives the rest of the stream. The chunk tags
  are the ASCII bytes of "RIFF", "WAVE", "fmt " and "data".
\<close>

type_synonym byte = "8 word"

datatype wav_error =
    EOF
  | ErrUnexpectedEOF
  | MissingRIFF
  | MissingWAVE
  | InvalidFmtSize "32 word"
  | DataBeforeFmt
  | UnsupportedFormat "16 word"
  | SkipFailed "byte list"

definition ReadFull :: "nat \<Rightarrow> byte list \<Rightarrow> wav_error + (byte list \<times> byte list)" where
  "ReadFull n r =
     (if n \<le> length r then Inr (take n r, drop n r)
      else if r = [] then Inl EOF
      else Inl ErrUnexpectedEOF)"

definition CopyN_Discard :: "nat \<Rightarrow> byte list \<Rightarrow> wav_error + byte list" where
  "CopyN_Discard n r = (if n \<le> length r then Inr (drop n r) else Inl EOF)"

text \<open>\<open>binary.LittleEndian.Uint16\<close> and \<open>Uint32\<close>.\<close>

definition Uint16 :: "byte list \<Rightarrow> 16 word" where
  "Uint16 b = ucast (b ! 0) OR push_bit 8 (ucast (b ! 1))"

definition Uint32 :: "byte list \<Rightarrow> 32 word" where
  "Uint32 b = ucast (b ! 0) OR push_bit 8 (ucast (b ! 1)) OR push_bit 16 (ucast (b ! 2))
               OR push_bit 24 (ucast (b ! 3))"

record WavHeader =
  AudioFormat :: "16 word"
  NumChannels :: "16 word"
  SampleRate :: "32 word"
  ByteRate :: "32 word"
  BlockAlign :: "16 word"
  BitsPerSample :: "16 word"

definition tag_RIFF :: "byte list" where "tag_RIFF = [0x52, 0x49, 0x46, 0x46]"

definition tag_WAVE :: "byte list" where "tag_WAVE = [0x57, 0x41, 0x56, 0x45]"

definition tag_fmt :: "byte list" where "tag_fmt = [0x66, 0x6D, 0x74, 0x20]"

definition tag_data :: "byte list" where "tag_data = [0x64, 0x61, 0x74, 0x61]"

definition skip_padding :: "32 word \<Rightarrow> byte list \<Rightarrow> byte list" where
  "skip_padding chunkSize r = (if chunkSize mod 2 \<noteq> 0 then drop 1 r else r)"

definition parse_fmt :: "byte list \<Rightarrow> WavHeader" where
  "parse_fmt fmtData =
     \<lparr> AudioFormat = Uint16 (take 2 fmtData),
       NumChannels = Uint16 (take 2 (drop 2 fmtData)),
       SampleRate = Uint32 (take 4 (drop 4 fmtData)),
       ByteRate = Uint32 (take 4 (drop 8 fmtData)),
       BlockAlign = Uint16 (take 2 (drop 12 fmtData)),
       BitsPerSample = Uint16 (take 2 (drop 14 fmtData)) \<rparr>"

text \<open>
  The loop over the chunks, with the header filled so far and \<open>foundFmt\<close>. Every pass
  reads the 8 bytes of a chunk header first, so the stream gets shorter: the loop
  terminates. The error of the \<open>io.CopyN\<close> that skips a padding byte is ignored, as in
  the source.
\<close>

lemma ReadFull_length:
  "ReadFull n r = Inr (b, r1) \<Longrightarrow> length r1 = length r - n \<and> n \<le> length r"
  by (auto simp: ReadFull_def split: if_splits)

lemma CopyN_Discard_length:
  "CopyN_Discard n r = Inr r1 \<Longrightarrow> length r1 = length r - n"
  by (auto simp: CopyN_Discard_def split: if_splits)

lemma skip_padding_length: "length (skip_padding c r) \<le> length r"
  by (simp add: skip_padding_def)

function chunks_loop ::
    "WavHeader \<Rightarrow> bool \<Rightarrow> byte list \<Rightarrow> wav_error + (WavHeader \<times> byte list)" where
  "chunks_loop h foundFmt r =
     (case ReadFull 8 r of
        Inl err \<Rightarrow> Inl err
      | Inr (chunkHeader, r1) \<Rightarrow>
          let chunkID = take 4 chunkHeader;
              chunkSize = Uint32 (take 4 (drop 4 chunkHeader))
          in if chunkID = tag_fmt then
               (if chunkSize < 16 then Inl (InvalidFmtSize chunkSize)
                else
                  (case ReadFull (unat chunkSize) r1 of
                     Inl err \<Rightarrow> Inl err
                   | Inr (fmtData, r2) \<Rightarrow>
                       chunks_loop (parse_fmt fmtData) True (skip_padding chunkSize r2)))
             else if chunkID = tag_data then
               (if \<not> foundFmt then Inl DataBeforeFmt
                else if AudioFormat h \<noteq> 1 \<and> AudioFormat h \<noteq> 0xFFFE
                then Inl (UnsupportedFormat (AudioFormat h))
                else Inr (h, r1))
             else
               (case CopyN_Discard (unat chunkSize) r1 of
                  Inl err \<Rightarrow> Inl (SkipFailed chunkID)
                | Inr r2 \<Rightarrow> chunks_loop h foundFmt (skip_padding chunkSize r2)))"
  by pat_completeness auto
termination
proof (relation "measure (\<lambda>(h, foundFmt, r). length r)")
  show "wf (measure (\<lambda>(h, foundFmt, r). length r))" by simp
next
  fix h :: WavHeader and foundFmt :: bool and r x2 x y xa xb x2a xc ya
  assume a: "ReadFull 8 r = Inr x2" "(x, y) = x2" "xa = take 4 x"
    "xb = Uint32 (take 4 (drop 4 x))" "ReadFull (unat xb) y = Inr x2a" "(xc, ya) = x2a"
  from a have "length y + 8 = length r"
    using ReadFull_length [of 8 r x y] by simp
  moreover from a have "length ya \<le> length y"
    using ReadFull_length [of "unat xb" y xc ya] by simp
  moreover have "length (skip_padding xb ya) \<le> length ya" by (rule skip_padding_length)
  ultimately show "((parse_fmt xc, True, skip_padding xb ya), h, foundFmt, r)
      \<in> measure (\<lambda>(h, foundFmt, r). length r)" by simp
next
  fix h :: WavHeader and foundFmt :: bool and r x2 x y xa xb x2a
  assume a: "ReadFull 8 r = Inr x2" "(x, y) = x2" "xa = take 4 x"
    "xb = Uint32 (take 4 (drop 4 x))" "CopyN_Discard (unat xb) y = Inr x2a"
  from a have "length y + 8 = length r"
    using ReadFull_length [of 8 r x y] by simp
  moreover from a have "length x2a \<le> length y"
    using CopyN_Discard_length [of "unat xb" y x2a] by simp
  moreover have "length (skip_padding xb x2a) \<le> length x2a" by (rule skip_padding_length)
  ultimately show "((h, foundFmt, skip_padding xb x2a), h, foundFmt, r)
      \<in> measure (\<lambda>(h, foundFmt, r). length r)" by simp
qed

declare chunks_loop.simps [simp del]

definition header0 :: WavHeader where
  "header0 = \<lparr> AudioFormat = 0, NumChannels = 0, SampleRate = 0, ByteRate = 0,
               BlockAlign = 0, BitsPerSample = 0 \<rparr>"

definition ReadWavHeader :: "byte list \<Rightarrow> wav_error + (WavHeader \<times> byte list)" where
  "ReadWavHeader r =
     (case ReadFull 12 r of
        Inl err \<Rightarrow> Inl err
      | Inr (riffHeader, r1) \<Rightarrow>
          if take 4 riffHeader \<noteq> tag_RIFF then Inl MissingRIFF
          else if take 4 (drop 8 riffHeader) \<noteq> tag_WAVE then Inl MissingWAVE
          else chunks_loop header0 False r1)"

text \<open>
  The container format, to state what the parser is given: a chunk is its tag, its
  payload and the padding byte that follows a payload of odd length; \<open>enc_chunk\<close> is the
  chunk as bytes (tag, length of the payload as 4 little-endian bytes, payload,
  padding). \<open>wf_chunk\<close>: the tag has 4 bytes and is not "data", and the length fits in 32
  bits. \<open>fmt_fields\<close> is the first 16 bytes of the payload of a format chunk.
\<close>

definition enc16 :: "16 word \<Rightarrow> byte list" where
  "enc16 w = [ucast w, ucast (drop_bit 8 w)]"

definition enc32 :: "32 word \<Rightarrow> byte list" where
  "enc32 w = [ucast w, ucast (drop_bit 8 w), ucast (drop_bit 16 w), ucast (drop_bit 24 w)]"

record chunk =
  cid :: "byte list"
  payload :: "byte list"
  padb :: byte

definition enc_chunk :: "chunk \<Rightarrow> byte list" where
  "enc_chunk c =
     cid c @ enc32 (of_nat (length (payload c))) @ payload c @
     (if odd (length (payload c)) then [padb c] else [])"

definition wf_chunk :: "chunk \<Rightarrow> bool" where
  "wf_chunk c = (length (cid c) = 4 \<and> length (payload c) < 2 ^ 32 \<and> cid c \<noteq> tag_data)"

definition fmt_fields :: "WavHeader \<Rightarrow> byte list" where
  "fmt_fields h =
     enc16 (AudioFormat h) @ enc16 (NumChannels h) @ enc32 (SampleRate h) @
     enc32 (ByteRate h) @ enc16 (BlockAlign h) @ enc16 (BitsPerSample h)"

text \<open>
  The conditions of failure, on the chunks \<open>cs\<close> that come before the data chunk: a
  format chunk that declares fewer than 16 bytes; no format chunk before the data chunk;
  a format code, in the last format chunk before the data chunk, other than 1 and 0xFFFE.
\<close>

definition is_fmt :: "chunk \<Rightarrow> bool" where
  "is_fmt c = (cid c = tag_fmt)"

definition fmt_too_small :: "chunk list \<Rightarrow> bool" where
  "fmt_too_small cs = (\<exists>c \<in> set cs. is_fmt c \<and> length (payload c) < 16)"

definition data_before_fmt :: "chunk list \<Rightarrow> bool" where
  "data_before_fmt cs = (filter is_fmt cs = [])"

definition supported :: "WavHeader \<Rightarrow> bool" where
  "supported h = (AudioFormat h = 1 \<or> AudioFormat h = 0xFFFE)"

definition last_fmt :: "WavHeader \<Rightarrow> chunk list \<Rightarrow> WavHeader" where
  "last_fmt h cs = (if filter is_fmt cs = [] then h else parse_fmt (payload (last (filter is_fmt cs))))"

definition unsupported_code :: "chunk list \<Rightarrow> bool" where
  "unsupported_code cs = (filter is_fmt cs \<noteq> [] \<and> \<not> supported (parse_fmt (payload (last (filter is_fmt cs)))))"

section \<open>The volume scaler (PCMVolume)\<close>

text \<open>
  The source the scaler wraps is an \<open>io.Reader\<close>: a list of deliveries still to come,
  each the bytes one \<open>Read\<close> would return with the error it returns along with them
  (\<open>None\<close> for nil), and the error it returns for ever once they are used up. A
  \<open>Read\<close> into a buffer of \<open>c\<close> bytes returns the next delivery, or its first \<open>c\<close>
  bytes with a nil error when it is longer, the rest staying in the source.
\<close>

record 'e source =
  pending :: "(byte list \<times> 'e option) list"
  final_err :: 'e

definition source_Read :: "nat \<Rightarrow> 'e source \<Rightarrow> byte list \<times> 'e option \<times> 'e source" where
  "source_Read c s =
     (case pending s of
        [] \<Rightarrow> ([], Some (final_err s), s)
      | (d, e) # rest \<Rightarrow>
          if length d \<le> c then (d, e, s\<lparr>pending := rest\<rparr>)
          else (take c d, None, s\<lparr>pending := (drop c d, e) # rest\<rparr>))"

text \<open>
  The field \<open>r\<close> is named \<open>reader\<close>. The factor \<open>volume\<close> is a \<open>float64\<close> in the
  source. The model holds the value of a \<open>float64\<close> as a rational, and rounds the result of
  a \<open>float64\<close> operation as IEEE 754 does: to 53 significant bits, to the nearest such
  number, a tie going to the even significand (\<open>round_float64\<close>). \<open>binade a\<close> is the
  exponent \<open>e\<close> with \<open>2^e \<le> a < 2^(e+1)\<close>, so that \<open>2^(e-52)\<close> is the distance between
  the neighbours of \<open>a\<close> among these numbers.

  The exponent is not bounded in the model and there is neither NaN nor infinity: the
  factor is a finite \<open>float64\<close>. What \<open>Read\<close> computes stays within that. The
  difference \<open>vol - 1.0\<close> neither overflows nor underflows. A product
  \<open>float64(sample) * vol\<close> beyond the range of \<open>float64\<close> is an infinity in the code
  and a number beyond the range of \<open>int16\<close> in the model, and the clamp makes the same
  of both; a product below the normal range is below 1 in magnitude in both, and its
  conversion is 0.
\<close>

definition round_half_even :: "rat \<Rightarrow> int" where
  "round_half_even x =
     (let f = \<lfloor>x\<rfloor>; r = x - of_int f
      in if r < 1 / 2 then f else if r > 1 / 2 then f + 1 else if even f then f else f + 1)"

definition binade :: "rat \<Rightarrow> int" where
  "binade a = (if 1 \<le> a then bitlen \<lfloor>a\<rfloor> - 1 else - bitlen (\<lceil>1 / a\<rceil> - 1))"

definition round_float64 :: "rat \<Rightarrow> rat" where
  "round_float64 x =
     (if x = 0 then 0
      else let ulp = 2 powi (binade \<bar>x\<bar> - 52)
           in of_int (round_half_even (x / ulp)) * ulp)"

definition float64_mul :: "rat \<Rightarrow> rat \<Rightarrow> rat" where
  "float64_mul a b = round_float64 (a * b)"

definition float64_sub :: "rat \<Rightarrow> rat \<Rightarrow> rat" where
  "float64_sub a b = round_float64 (a - b)"

text \<open>The constant \<open>0.001\<close> of the source, converted to \<open>float64\<close>.\<close>

definition float64_0_001 :: rat where
  "float64_0_001 = round_float64 (1 / 1000)"

record 'e PCMVolume =
  reader :: "'e source"
  volume :: rat
  leftover :: "byte list"

definition NewPCMVolume :: "'e source \<Rightarrow> 'e PCMVolume" where
  "NewPCMVolume src = \<lparr> reader = src, volume = 1, leftover = [] \<rparr>"

definition PCM_SetVolume :: "rat \<Rightarrow> 'e PCMVolume \<Rightarrow> 'e PCMVolume" where
  "PCM_SetVolume vol v = v\<lparr>volume := max 0 vol\<rparr>"

text \<open>
  One sample: \<open>int16(binary.LittleEndian.Uint16(p[i:i+2]))\<close> is read, multiplied as a
  \<open>float64\<close>, clamped as a \<open>float64\<close>, converted by \<open>int16(scaled)\<close>, which discards
  the fraction, and written back by \<open>PutUint16\<close>. The loop
  \<open>for i := 0; i+1 < n; i += 2\<close> does this for every pair of bytes below \<open>n\<close>.
\<close>

definition sample_at :: "byte list \<Rightarrow> nat \<Rightarrow> int" where
  "sample_at p i = sint (Uint16 [p ! i, p ! (i + 1)])"

definition clamp_scaled :: "rat \<Rightarrow> rat" where
  "clamp_scaled scaled =
     (if scaled > 32767 then 32767 else if scaled < - 32768 then - 32768 else scaled)"

definition to_int16 :: "rat \<Rightarrow> 16 word" where
  "to_int16 x = word_of_int (if 0 \<le> x then \<lfloor>x\<rfloor> else \<lceil>x\<rceil>)"

definition PutUint16 :: "byte list \<Rightarrow> nat \<Rightarrow> 16 word \<Rightarrow> byte list" where
  "PutUint16 p i w = p[i := ucast w, i + 1 := ucast (drop_bit 8 w)]"

function scale_loop :: "rat \<Rightarrow> nat \<Rightarrow> nat \<Rightarrow> byte list \<Rightarrow> byte list" where
  "scale_loop vol i n p =
     (if i + 1 < n
      then scale_loop vol (i + 2) n
             (PutUint16 p i (to_int16 (clamp_scaled (float64_mul (of_int (sample_at p i)) vol))))
      else p)"
  by pat_completeness auto
termination
  by (relation "measure (\<lambda>(vol, i, n, p). n - i)") auto

declare scale_loop.simps [simp del]

text \<open>
  \<open>Read\<close>, given the buffer \<open>p\<close> of the caller: the number of bytes returned, the
  error, the buffer after the call and the scaler after the call.
\<close>

definition Read ::
    "byte list \<Rightarrow> 'e PCMVolume \<Rightarrow> nat \<times> 'e option \<times> byte list \<times> 'e PCMVolume" where
  "Read p v =
     (if length p = 0 then (0, None, p, v)
      else
        let (startIdx, p0, v0) =
              (if length (leftover v) > 0
               then (1, p[0 := leftover v ! 0], v\<lparr>leftover := []\<rparr>)
               else (0, p, v))
        in if startIdx = 1 \<and> length p = 1 then (1, None, p0, v0)
           else
             let (d, err, src) = source_Read (length p - startIdx) (reader v0);
                 readN = length d;
                 p1 = take startIdx p0 @ d @ drop (startIdx + readN) p0;
                 n = startIdx + readN;
                 v1 = v0\<lparr>reader := src\<rparr>
             in if n > 0
                then
                  let (n1, v2) =
                        (if n mod 2 \<noteq> 0
                         then (n - 1, v1\<lparr>leftover := [p1 ! (n - 1)]\<rparr>)
                         else (n, v1));
                      vol = volume v2
                  in if \<bar>float64_sub vol 1\<bar> > float64_0_001
                     then (n1, err, scale_loop vol 0 n1 p1, v2)
                     else (n1, err, p1, v2)
                else (n, err, p1, v1))"

text \<open>Rounding towards zero, and the clamp of an integer to the range of \<open>int16\<close>.\<close>

definition trunc_rat :: "rat \<Rightarrow> int" where
  "trunc_rat x = (if 0 \<le> x then \<lfloor>x\<rfloor> else \<lceil>x\<rceil>)"

definition clamp_int16 :: "int \<Rightarrow> int" where
  "clamp_int16 y = max (- 32768) (min 32767 y)"

section \<open>Theorems\<close>

subsection \<open>PlayPrevious\<close>




subsection \<open>SetVolume\<close>

lemma SetVolume_Volume: "Volume (SetVolume level p) = max 0 (min 256 level)"
  by (simp add: SetVolume_def Let_def)

lemma SetVolume_chan:
  "volumeChangeChan (SetVolume level p) =
     (if volumeChangeChan p = 0 then 1 else volumeChangeChan p)"
  by (simp add: SetVolume_def Let_def volumeChangeCap_def)

text \<open>
  C8, as the claim states it, fails: a Player with no session (no stream, no encoding)
  gets the notification posted all the same.
\<close>

theorem SetVolume_posts_without_session:
  "stream (NewPlayer ''g'' 256 :: nat Player) = None \<and>
   encoding (NewPlayer ''g'' 256 :: nat Player) = None \<and>
   volumeChangeChan (NewPlayer ''g'' 256 :: nat Player) = 0 \<and>
   volumeChangeChan (SetVolume 100 (NewPlayer ''g'' 256 :: nat Player)) = 1"
  by (simp add: SetVolume_def NewPlayer_def volumeChangeCap_def)

text \<open>
  C8, amended. For every integer level, \<open>SetVolume\<close> stores the level clamped into
  [0, 256] (1000 gives 256, -5 gives 0). Whether or not a session is active, it posts the
  notification when the single slot is empty and leaves the slot as it is when a
  notification is pending; it changes no other field, and it always returns (the
  function is total).
\<close>

theorem SetVolume_spec:
  "Volume (SetVolume level p) = max 0 (min 256 level) \<and>
   Volume (SetVolume 1000 p) = 256 \<and>
   Volume (SetVolume (- 5) p) = 0 \<and>
   volumeChangeChan (SetVolume level p) =
     (if volumeChangeChan p = 0 then 1 else volumeChangeChan p) \<and>
   SetVolume level p =
     p\<lparr>Volume := max 0 (min 256 level),
       volumeChangeChan := (if volumeChangeChan p = 0 then 1 else volumeChangeChan p)\<rparr>"
  by (simp add: SetVolume_def Let_def volumeChangeCap_def max_def min_def)


subsection \<open>Manager.Shutdown\<close>

text \<open>
  C9, as the claim states it, fails: after \<open>Shutdown\<close> of a registry that holds a Player,
  the registry still holds it.
\<close>

theorem Shutdown_keeps_registry:
  "players (fst (Shutdown (snd (GetOrCreatePlayer ''g'' 256 (NewManager :: nat Manager))))) ''g''
     = Some (NewPlayer ''g'' 256)"
  by (simp add: Shutdown_def GetOrCreatePlayer_def NewManager_def Let_def)

text \<open>
  C9, amended. \<open>Shutdown\<close> starts a \<open>Stop\<close>, in a goroutine of its own, for every
  registered Player and for nothing else, waits for none of them, and leaves the registry
  as it was: no Player is detached.
\<close>

theorem Shutdown_spec:
  "snd (Shutdown m) = {p. \<exists>guildID. players m guildID = Some p} \<and>
   fst (Shutdown m) = m \<and>
   dom (players (fst (Shutdown m))) = dom (players m)"
  by (simp add: Shutdown_def ran_def)

subsection \<open>Stop on a Player that was never started\<close>

lemma call_step_done_ch: "done_ch (call_step c p) = done_ch p"
  by (cases c)
    (simp_all add: Enqueue_def Skip_def PlayPrevious_def Pause_def Resume_def SetVolume_def
      SetLastMessage_def Start_def Stop_signal_def Let_def split: chan.splits option.splits)

lemma calls_done_ch: "done_ch (calls cs p) = done_ch p"
  by (induction cs arbitrary: p) (simp_all add: call_step_done_ch)

lemma Stop_signal_done_ch: "done_ch (Stop_signal p) = done_ch p"
  by (simp add: Stop_signal_def Let_def split: chan.splits)

lemma Stop_returns_iff: "(Stop p \<noteq> None) = (done_ch p = Closed)"
  by (simp add: Stop_def Let_def Stop_signal_done_ch)

lemma Stop_never_started: "Stop (calls cs (NewPlayer guildID vol)) = None"
proof -
  have "done_ch (calls cs (NewPlayer guildID vol :: 'a Player)) = Open"
    by (simp add: calls_done_ch NewPlayer_def)
  then show ?thesis by (simp add: Stop_def Let_def Stop_signal_done_ch)
qed

lemma loop_steps_done_ch:
  "done_ch (fst (snd (playLoop_head p))) = done_ch p"
  "done_ch (playLoop_after_song song p) = done_ch p"
  "select_step sc p = Some r \<Longrightarrow> done_ch (fst (snd r)) = done_ch p"
  "done_ch (fst (cleanupSession enc p)) = done_ch p"
  "done_ch (fst (Stop_finish p)) = done_ch p"
  "done_ch (snd (Start channelID ok p)) = done_ch p"
  by (auto simp: playLoop_head_def playLoop_after_song_def select_step_def cleanupSession_def
      Stop_finish_def Stop_disconnect_def Stop_reset_def Start_def dequeue_def Let_def
      split: list.splits option.splits select_case.splits if_splits)

text \<open>
  C10, as the claim states it, fails for \<open>Shutdown\<close>: on a registry that holds a Player
  that was never started, \<open>Remove\<close> blocks, but \<open>Shutdown\<close> returns (it has only
  started the \<open>Stop\<close> in a goroutine of its own).
\<close>

theorem Shutdown_returns_never_started:
  "Remove ''g'' (snd (GetOrCreatePlayer ''g'' 256 (NewManager :: nat Manager))) = None \<and>
   Shutdown (snd (GetOrCreatePlayer ''g'' 256 (NewManager :: nat Manager))) =
     (snd (GetOrCreatePlayer ''g'' 256 NewManager), {NewPlayer ''g'' 256})"
  by (simp add: Remove_def Remove_detach_def Shutdown_def GetOrCreatePlayer_def NewManager_def
      Let_def Stop_def Stop_signal_def NewPlayer_def)

text \<open>
  C10, amended. \<open>Stop\<close> returns exactly when \<open>done\<close> is closed. No operation of a
  caller, no part of \<open>Stop\<close> or \<open>Start\<close> and no step of the playback loop changes
  \<open>done\<close>, but the deferred \<open>close(p.done)\<close> of \<open>playLoop\<close>, which closes it.
  So \<open>Stop\<close> on a Player that was created and then used in any way without a successful
  \<open>Start\<close> blocks, and so does \<open>Remove\<close> of the guild of such a Player.
  \<open>Shutdown\<close> does not block: it starts the \<open>Stop\<close> calls in goroutines of their own
  and returns.
\<close>

theorem Stop_blocks_never_started:
  "(Stop p \<noteq> None) = (done_ch p = Closed) \<and>
   done_ch (call_step c p) = done_ch p \<and>
   done_ch (fst (Stop_finish p)) = done_ch p \<and>
   done_ch (snd (Start channelID ok p)) = done_ch p \<and>
   done_ch (fst (snd (playLoop_head p))) = done_ch p \<and>
   done_ch (playLoop_after_song song p) = done_ch p \<and>
   (\<forall>sc r. select_step sc p = Some r \<longrightarrow> done_ch (fst (snd r)) = done_ch p) \<and>
   done_ch (fst (cleanupSession enc p)) = done_ch p \<and>
   (\<forall>q. close_done p = Some q \<longrightarrow> done_ch p = Open \<and> done_ch q = Closed) \<and>
   Stop (calls cs (NewPlayer guildID vol)) = (None :: ('a Player \<times> effect list) option) \<and>
   (players m g = Some (calls cs (NewPlayer guildID vol)) \<longrightarrow> Remove g m = None) \<and>
   Shutdown m = (m, ran (players m))"
proof -
  have r: "players m g = Some (calls cs (NewPlayer guildID vol)) \<longrightarrow> Remove g m = None"
    by (simp add: Remove_def Remove_detach_def Stop_never_started)
  have c: "\<forall>q. close_done p = Some q \<longrightarrow> done_ch p = Open \<and> done_ch q = Closed"
    by (auto simp: close_done_def split: chan.splits)
  have s1: "(Stop p \<noteq> None) = (done_ch p = Closed)"
    by (rule Stop_returns_iff)
  have s2: "Stop (calls cs (NewPlayer guildID vol)) = (None :: ('a Player \<times> effect list) option)"
    by (rule Stop_never_started)
  have s3: "done_ch (call_step c p) = done_ch p"
    by (rule call_step_done_ch)
  have s4: "\<forall>sc r. select_step sc p = Some r \<longrightarrow> done_ch (fst (snd r)) = done_ch p"
    using loop_steps_done_ch(3) [where p = p] by blast
  have s5: "Shutdown m = (m, ran (players m))"
    by (simp add: Shutdown_def)
  note l = loop_steps_done_ch(1,2,4,5,6) [where p = p]
  show ?thesis
    by (intro conjI) (fact s1 s2 s3 s4 s5 r c l)+
qed

theorem Stop_blocks_never_started_witness:
  "players (snd (GetOrCreatePlayer ''g'' 256 (NewManager :: nat Manager))) ''g'' =
     Some (calls [] (NewPlayer ''g'' 256)) \<and>
   Remove ''g'' (snd (GetOrCreatePlayer ''g'' 256 (NewManager :: nat Manager))) = None \<and>
   close_done (NewPlayer ''g'' 256 :: nat Player) = Some ((NewPlayer ''g'' 256)\<lparr>done_ch := Closed\<rparr>) \<and>
   select_step SelVolume ((NewPlayer ''g'' 256 :: nat Player)\<lparr>volumeChangeChan := 1\<rparr>) =
     Some (False, NewPlayer ''g'' 256, [ScalerSetVolume 256])"
  using Stop_blocks_never_started [where p = "NewPlayer ''g'' 256 :: nat Player" and cs = "[]"
      and guildID = "''g''" and vol = 256 and g = "''g''"
      and m = "snd (GetOrCreatePlayer ''g'' 256 (NewManager :: nat Manager))"]
  by (simp add: GetOrCreatePlayer_def NewManager_def Let_def close_done_def NewPlayer_def
      select_step_def)

subsection \<open>Stop against a running playback loop\<close>

text \<open>
  On a Player started for the first time, \<open>Stop\<close> waits: while the loop is in the
  \<open>select\<close> of \<open>streamSong\<close> the receive from \<open>done\<close> cannot be taken, and once
  the loop has seen the stop signal and left, \<open>Stop\<close> runs to its end.
\<close>

lemma Stop_waits_first_run:
  "run [Call (CEnqueue (1::nat)), CallStart ''c'' True, LoopHead 0 (SessionCreated 1 1),
        BeginStop, StopStep 0, StopStep 0, StopStep 0, StopStep 0]
     (init_System (NewPlayer ''g'' 256)) = None \<and>
   map_option (\<lambda>s. (stops s, loops s, crashed s, VoiceConn (plr s), IsPlaying (plr s),
                     NowPlaying (plr s), effects s))
     (run [Call (CEnqueue (1::nat)), CallStart ''c'' True, LoopHead 0 (SessionCreated 1 1),
           BeginStop, StopStep 0, StopStep 0, StopStep 0,
           LoopSelect 0 SelStop, LoopHead 0 FetchFails,
           StopStep 0, StopStep 0, StopStep 0]
        (init_System (NewPlayer ''g'' 256))) =
   Some ([SReturned], [LExited], False, None, False, None,
         [Speaking True, ScalerSetVolume 256, EncodeCleanup 1, Speaking False, BodyClose,
          Speaking False, Disconnect])"
  by code_simp

text \<open>
  A call of \<open>Stop\<close> that takes its steps with no other goroutine in between does what
  \<open>Stop\<close> says: it blocks when \<open>done\<close> is open, and otherwise ends in the state and
  with the calls of \<open>Stop\<close>.
\<close>

lemma stop_steps_agree:
  "run (BeginStop # replicate (if stopChan p = Closed then 5 else 6) (StopStep 0)) (init_System p) =
     (case Stop p of
        Some (p1, es) \<Rightarrow>
          Some \<lparr>plr = p1, loops = [], stops = [SReturned], effects = es, crashed = False\<rparr>
      | None \<Rightarrow> None)"
  by (cases "stopChan p"; cases "done_ch p"; cases "VoiceConn p")
    (simp_all add: numeral_eq_Suc step_def stop_step_def init_System_def Stop_def Stop_signal_def
      Stop_finish_def Stop_disconnect_def Stop_reset_def Let_def split: prod.splits)

text \<open>
  Two calls of \<open>Stop\<close> at the same time: both poll \<open>stopChan\<close> before either closes
  it, and the second \<open>close\<close> panics.
\<close>

lemma Stop_twice_concurrently_panics:
  "map_option (\<lambda>s. (stops s, loops s, crashed s))
     (run [Call (CEnqueue (1::nat)), CallStart ''c'' True, LoopHead 0 (SessionCreated 1 1),
           BeginStop, BeginStop, StopStep 0, StopStep 1, StopStep 0, StopStep 1,
           StopStep 0, StopStep 1]
        (init_System (NewPlayer ''g'' 256))) =
   Some ([SWait, SClose], [LSelect 1 1], True)"
  by code_simp

text \<open>
  C3. The claim does not hold of the code on a Player that is started a second time.
  Song 1 is enqueued, \<open>Start\<close> succeeds, the loop plays song 1 to its end, finds the
  Queue empty and leaves, closing \<open>done\<close>. Song 2 is enqueued and \<open>Start\<close> succeeds
  again (\<open>IsPlaying\<close> is false): a second loop plays song 2. Now \<open>Stop\<close> is called:
  its receive from \<open>done\<close> returns at once, since \<open>done\<close> is still the channel the
  first loop closed, and \<open>Stop\<close> disconnects the voice connection and returns while the
  second loop is still in the \<open>select\<close> of \<open>streamSong\<close> with its session in
  place.
\<close>

theorem Stop_returns_while_loop_runs:
  "map_option (\<lambda>s. (stops s, loops s, crashed s, VoiceConn (plr s), IsPlaying (plr s),
                     encoding (plr s), stream (plr s)))
     (run [Call (CEnqueue (1::nat)), CallStart ''c'' True, LoopHead 0 (SessionCreated 1 1),
           LoopSelect 0 (SelDone False), LoopHead 0 FetchFails,
           Call (CEnqueue 2), CallStart ''c'' True, LoopHead 1 (SessionCreated 2 2),
           BeginStop, StopStep 0, StopStep 0, StopStep 0, StopStep 0, StopStep 0, StopStep 0]
        (init_System (NewPlayer ''g'' 256))) =
   Some ([SReturned], [LExited, LSelect 2 2], False, None, False, Some 2, Some 2)"
  by code_simp

text \<open>
  The run goes on: the second loop sees the stop signal, leaves \<open>streamSong\<close>, finds
  \<open>stopChan\<close> closed at the top of its \<open>for\<close> and returns; its deferred
  \<open>close(p.done)\<close> closes a closed channel and panics.
\<close>

lemma restarted_loop_panics_on_exit:
  "map_option (\<lambda>s. (stops s, loops s, crashed s))
     (run [Call (CEnqueue (1::nat)), CallStart ''c'' True, LoopHead 0 (SessionCreated 1 1),
           LoopSelect 0 (SelDone False), LoopHead 0 FetchFails,
           Call (CEnqueue 2), CallStart ''c'' True, LoopHead 1 (SessionCreated 2 2),
           BeginStop, StopStep 0, StopStep 0, StopStep 0, StopStep 0, StopStep 0, StopStep 0,
           LoopSelect 1 SelStop, LoopHead 1 FetchFails]
        (init_System (NewPlayer ''g'' 256))) =
   Some ([SReturned], [LExited, LExited], True)"
  by code_simp

subsection \<open>The teardown of streamSong\<close>

lemma call_step_encoding: "encoding (call_step c p) = encoding p \<and> stream (call_step c p) = stream p"
  by (cases c)
    (simp_all add: Enqueue_def Skip_def PlayPrevious_def Pause_def Resume_def SetVolume_def
      SetLastMessage_def Start_def Stop_signal_def Let_def split: chan.splits option.splits)

lemma calls_encoding: "encoding (calls cs p) = encoding p \<and> stream (calls cs p) = stream p"
  by (induction cs arbitrary: p) (simp_all add: call_step_encoding)

lemma select_step_encoding:
  "select_step c p = Some (b, p1, es) \<Longrightarrow>
     encoding p1 = encoding p \<and> stream p1 = stream p \<and> b = (c \<noteq> SelVolume) \<and>
     (\<forall>e\<in>set es. \<exists>v. e = ScalerSetVolume v)"
  by (cases c) (auto simp: select_step_def split: if_splits)

lemma select_step_leaves: "select_step c p = Some r \<Longrightarrow> fst r = (c \<noteq> SelVolume)"
  by (cases c) (auto simp: select_step_def split: if_splits)

lemma control_loop_encoding:
  "control_loop ws p = (r, p1, es) \<Longrightarrow>
     encoding p1 = encoding p \<and> stream p1 = stream p \<and> r \<noteq> Panicked \<and>
     (\<forall>e\<in>set es. \<exists>v. e = ScalerSetVolume v)"
proof (induction ws arbitrary: p r p1 es)
  case Nil
  then show ?case by simp
next
  case (Cons w ws)
  obtain cs c where w: "w = Wake cs c" by (cases w)
  show ?case
  proof (cases "select_step c (calls cs p)")
    case None
    with Cons.prems w show ?thesis by (auto simp: calls_encoding)
  next
    case (Some t)
    obtain b q es1 where t: "t = (b, q, es1)" by (cases t)
    note st = select_step_encoding [OF Some [unfolded t]]
    show ?thesis
    proof (cases b)
      case True
      with Cons.prems w Some t st show ?thesis by (auto simp: calls_encoding)
    next
      case False
      obtain r2 q2 es2 where cl: "control_loop ws q = (r2, q2, es2)" by (cases "control_loop ws q")
      from Cons.IH [OF cl] Cons.prems w Some t st False cl show ?thesis
        by (auto simp: calls_encoding)
    qed
  qed
qed


lemma control_loop_exits:
  "fst (control_loop [Wake [CStopSignal] SelStop] q) = Returned \<and>
   fst (control_loop [Wake [CSkip] SelSkip] q) = Returned \<and>
   fst (control_loop [Wake [] (SelDone False)] q) = Returned \<and>
   fst (control_loop [Wake [] (SelDone True)] q) = Returned"
  by (simp add: select_step_def Stop_signal_def Skip_def Let_def split: chan.splits)

lemma control_loop_effects:
  "control_loop ws p = (r, p1, es) \<Longrightarrow>
     EncodeCleanup enc \<notin> set es \<and> Speaking b \<notin> set es \<and> BodyClose \<notin> set es"
  using control_loop_encoding [of ws p r p1 es] by auto

text \<open>
  C6, as the claim states it, fails: when a call after the creation of the encoder session
  panics (here \<open>NewStream\<close>), the deferred \<open>Speaking(false)\<close> runs, but the encoder
  session is not cleaned up and the Player still refers to it.
\<close>

theorem streamSong_panic_skips_cleanup:
  "streamSong \<lparr>env_setup = SessionCreated 1 1, env_panics = (\<lambda>c. c = AtNewStream),
      env_wakes = []\<rparr> (0::nat) (NewPlayer ''g'' 256) =
   (Panicked, (NewPlayer ''g'' 256)\<lparr>encoding := Some 1\<rparr>,
    [Speaking True, ScalerSetVolume 256, BodyClose, Speaking False])"
  by (simp add: streamSong_def NewPlayer_def leave_def run_deferred_def)

text \<open>
  C6, amended. Once the encoder session is created, every path on which \<open>streamSong\<close>
  returns has run the teardown: the encoder session is cleaned up, the transport is told
  that sending is over, and the Player's references \<open>encoding\<close> and \<open>stream\<close> are
  nil. When no call panics, \<open>streamSong\<close> returns as soon as the control loop is left,
  and the loop is left by each of stop, skip, the natural end and an encoder error (every
  case of the \<open>select\<close> but the volume change). A panic does not always leave the
  teardown done. When the call that panics is \<open>Speaking(true)\<close>, \<open>NewStream\<close> or the
  encoder's \<open>Cleanup\<close>, the encoder session is not cleaned up and the Player still
  refers to it. When it is the \<open>Speaking(false)\<close> after \<open>cleanupSession()\<close> or a
  deferred call, the session has been cleaned up and the references are nil. On every
  return and every panic the deferred \<open>Speaking(false)\<close> is the last call made, unless
  it is that call that panics.
\<close>

theorem streamSong_teardown:
  assumes "env_setup env = SessionCreated enc strm"
    and "streamSong env song p = (r, p1, es)"
  shows
    "(r = Returned \<longrightarrow>
        (\<exists>es0. es = es0 @ [EncodeCleanup enc, Speaking False] @ deferred_calls) \<and>
        encoding p1 = None \<and> stream p1 = None) \<and>
     ((\<forall>c. \<not> env_panics env c) \<and>
      fst (control_loop (env_wakes env) (p\<lparr>encoding := Some enc, stream := Some strm\<rparr>)) = Returned \<longrightarrow>
        r = Returned) \<and>
     (r = Panicked \<and>
      (env_panics env AtSpeakingTrue \<or> env_panics env AtNewStream \<or> env_panics env AtCleanup) \<longrightarrow>
        encoding p1 = Some enc \<and> EncodeCleanup enc \<notin> set es) \<and>
     (r = Panicked \<and>
      \<not> (env_panics env AtSpeakingTrue \<or> env_panics env AtNewStream \<or> env_panics env AtCleanup) \<longrightarrow>
        encoding p1 = None \<and> stream p1 = None \<and> EncodeCleanup enc \<in> set es) \<and>
     (r \<noteq> Waiting \<and> \<not> env_panics env AtDeferredSpeaking \<longrightarrow>
        (\<exists>es0. es = es0 @ [Speaking False])) \<and>
     (\<forall>c (q :: 'b Player) t. select_step c q = Some t \<longrightarrow> fst t = (c \<noteq> SelVolume)) \<and>
     fst (control_loop [Wake [CStopSignal] SelStop] q) = Returned \<and>
     fst (control_loop [Wake [CSkip] SelSkip] q) = Returned \<and>
     fst (control_loop [Wake [] (SelDone False)] q) = Returned \<and>
     fst (control_loop [Wake [] (SelDone True)] q) = Returned"
proof -
  obtain lr q2 es2 where c:
    "control_loop (env_wakes env) (p\<lparr>encoding := Some enc, stream := Some strm\<rparr>) = (lr, q2, es2)"
    by (cases "control_loop (env_wakes env) (p\<lparr>encoding := Some enc, stream := Some strm\<rparr>)")
  from control_loop_encoding [OF c] have e: "encoding q2 = Some enc" and lp: "lr \<noteq> Panicked"
    by simp_all
  from control_loop_effects [OF c]
  have n: "EncodeCleanup enc \<notin> set es2" by simp
  note defs = streamSong_def Let_def cleanupSession_def leave_def run_deferred_def
    deferred_calls_def
  have a: "r = Returned \<longrightarrow>
        (\<exists>es0. es = es0 @ [EncodeCleanup enc, Speaking False] @ deferred_calls) \<and>
        encoding p1 = None \<and> stream p1 = None"
    using assms c e lp by (cases lr) (auto simp: defs split: if_splits)
  have b: "(\<forall>c. \<not> env_panics env c) \<and>
      fst (control_loop (env_wakes env) (p\<lparr>encoding := Some enc, stream := Some strm\<rparr>)) = Returned \<longrightarrow>
        r = Returned"
    using assms c e by (auto simp: defs split: if_splits)
  have c3: "r = Panicked \<and>
      (env_panics env AtSpeakingTrue \<or> env_panics env AtNewStream \<or> env_panics env AtCleanup) \<longrightarrow>
        encoding p1 = Some enc \<and> EncodeCleanup enc \<notin> set es"
    using assms c e lp n by (cases lr) (auto simp: defs split: if_splits)
  have c4: "r = Panicked \<and>
      \<not> (env_panics env AtSpeakingTrue \<or> env_panics env AtNewStream \<or> env_panics env AtCleanup) \<longrightarrow>
        encoding p1 = None \<and> stream p1 = None \<and> EncodeCleanup enc \<in> set es"
    using assms c e lp by (cases lr) (auto simp: defs split: if_splits)
  have c5: "r \<noteq> Waiting \<and> \<not> env_panics env AtDeferredSpeaking \<longrightarrow>
        (\<exists>es0. es = es0 @ [Speaking False])"
    using assms c e lp by (cases lr) (auto simp: defs split: if_splits)
  have d: "\<And>c (q :: 'b Player) t. select_step c q = Some t \<Longrightarrow> fst t = (c \<noteq> SelVolume)"
    by (rule select_step_leaves)
  from a b c3 c4 c5 d control_loop_exits [of q] show ?thesis
    by (intro conjI allI impI) simp_all
qed

theorem streamSong_teardown_witness:
  "env_setup \<lparr>env_setup = SessionCreated 1 1, env_panics = (\<lambda>c. False),
      env_wakes = [Wake [CSetVolume 100] SelVolume, Wake [CStopSignal] SelStop]\<rparr>
     = SessionCreated 1 1 \<and>
   streamSong \<lparr>env_setup = SessionCreated 1 1, env_panics = (\<lambda>c. False),
      env_wakes = [Wake [CSetVolume 100] SelVolume, Wake [CStopSignal] SelStop]\<rparr>
     (0::nat) ((NewPlayer ''g'' 256)\<lparr>Queue := [7]\<rparr>) =
   (Returned, (NewPlayer ''g'' 256)\<lparr>Volume := 100, stopChan := Closed\<rparr>,
    [Speaking True, ScalerSetVolume 256, ScalerSetVolume 100, EncodeCleanup 1,
     Speaking False, BodyClose, Speaking False]) \<and>
   streamSong \<lparr>env_setup = SessionCreated 1 1, env_panics = (\<lambda>c. c = AtSpeakingFalse),
      env_wakes = [Wake [] (SelDone True)]\<rparr> (0::nat) (NewPlayer ''g'' 256) =
   (Panicked, NewPlayer ''g'' 256,
    [Speaking True, ScalerSetVolume 256, EncodeCleanup 1, BodyClose, Speaking False]) \<and>
   streamSong \<lparr>env_setup = SessionCreated 1 1, env_panics = (\<lambda>c. c = AtCleanup),
      env_wakes = [Wake [] (SelDone True)]\<rparr> (0::nat) (NewPlayer ''g'' 256) =
   (Panicked, (NewPlayer ''g'' 256)\<lparr>encoding := Some 1, stream := Some 1\<rparr>,
    [Speaking True, ScalerSetVolume 256, BodyClose, Speaking False]) \<and>
   streamSong \<lparr>env_setup = SessionCreated 1 1, env_panics = (\<lambda>c. c = AtDeferredSpeaking),
      env_wakes = [Wake [] (SelDone False)]\<rparr> (0::nat) (NewPlayer ''g'' 256) =
   (Panicked, NewPlayer ''g'' 256,
    [Speaking True, ScalerSetVolume 256, EncodeCleanup 1, Speaking False, BodyClose]) \<and>
   select_step SelStop ((NewPlayer ''g'' 256 :: nat Player)\<lparr>stopChan := Closed\<rparr>) =
     Some (True, (NewPlayer ''g'' 256)\<lparr>stopChan := Closed\<rparr>, [])"
  using streamSong_teardown [where env = "\<lparr>env_setup = SessionCreated 1 1,
      env_panics = (\<lambda>c. False),
      env_wakes = [Wake [CSetVolume 100] SelVolume, Wake [CStopSignal] SelStop]\<rparr>"
      and enc = 1 and strm = 1 and song = "0::nat"
      and p = "(NewPlayer ''g'' 256)\<lparr>Queue := [7]\<rparr>" and q = "NewPlayer ''g'' 256 :: nat Player"]
    streamSong_teardown [where env = "\<lparr>env_setup = SessionCreated 1 1,
      env_panics = (\<lambda>c. c = AtSpeakingFalse), env_wakes = [Wake [] (SelDone True)]\<rparr>"
      and enc = 1 and strm = 1 and song = "0::nat"
      and p = "NewPlayer ''g'' 256" and q = "NewPlayer ''g'' 256 :: nat Player"]
    streamSong_teardown [where env = "\<lparr>env_setup = SessionCreated 1 1,
      env_panics = (\<lambda>c. c = AtCleanup), env_wakes = [Wake [] (SelDone True)]\<rparr>"
      and enc = 1 and strm = 1 and song = "0::nat"
      and p = "NewPlayer ''g'' 256" and q = "NewPlayer ''g'' 256 :: nat Player"]
  by (simp add: streamSong_def NewPlayer_def deferred_calls_def select_step_def
      SetVolume_def Stop_signal_def volumeChangeCap_def cleanupSession_def Let_def
      leave_def run_deferred_def)

subsection \<open>The header parser\<close>

lemma Uint16_enc16: "Uint16 (enc16 w @ bs) = w"
  unfolding Uint16_def enc16_def
  by (rule bit_word_eqI) (auto simp: bit_simps nth_append)

lemma cat_bytes32:
  "ucast (ucast w :: byte) OR push_bit 8 (ucast (ucast (drop_bit 8 w) :: byte)) OR
   push_bit 16 (ucast (ucast (drop_bit 16 w) :: byte)) OR
   push_bit 24 (ucast (ucast (drop_bit 24 w) :: byte)) = (w :: 32 word)"
  (is "?l = w")
proof (rule bit_word_eqI)
  fix n
  assume "n < LENGTH(32)"
  then have n: "n < 32" by simp
  consider "n < 8" | "8 \<le> n" "n < 16" | "16 \<le> n" "n < 24" | "24 \<le> n" "n < 32"
    using n by linarith
  then show "bit ?l n = bit w n"
    by cases (auto simp: bit_simps)
qed

lemma Uint32_enc32: "Uint32 (enc32 w @ bs) = w"
  by (simp add: Uint32_def enc32_def cat_bytes32)

lemma length_enc: "length (enc16 v) = 2" "length (enc32 w) = 4"
  by (simp_all add: enc16_def enc32_def)

lemma parse_fmt_fields: "parse_fmt (fmt_fields h @ extra) = h"
  by (simp add: parse_fmt_def fmt_fields_def length_enc Uint16_enc16 Uint32_enc32
      Uint16_enc16 [where bs = "[]", simplified] Uint32_enc32 [where bs = "[]", simplified])

lemma unat_size: "k < 2 ^ 32 \<Longrightarrow> unat (of_nat k :: 32 word) = k"
  by (rule of_nat_inverse [OF refl]) simp

lemma size_less_16: "k < 2 ^ 32 \<Longrightarrow> ((of_nat k :: 32 word) < 16) = (k < 16)"
  by (simp add: word_less_nat_alt unat_size)

lemma size_odd: "((of_nat k :: 32 word) mod 2 = 1) = odd k"
  by (simp add: even_of_nat_iff flip: odd_iff_mod_2_eq_one)

lemma enc32_simps: "take 4 (enc32 w) = enc32 w" "Uint32 (enc32 w) = w"
  using Uint32_enc32 [of w "[]"] by (simp_all add: enc32_def)

lemma skip_padding_chunk:
  "k < 2 ^ 32 \<Longrightarrow>
   skip_padding (of_nat k) ((if odd k then [b] else []) @ r) = r"
  by (simp add: skip_padding_def size_odd)

lemma chunks_loop_header:
  "length i = 4 \<Longrightarrow> ReadFull 8 (i @ enc32 w @ r) = Inr (i @ enc32 w, r)"
  "length i = 4 \<Longrightarrow> take 4 (i @ enc32 w) = i"
  "length i = 4 \<Longrightarrow> Uint32 (take 4 (drop 4 (i @ enc32 w))) = w"
  using Uint32_enc32 [of w "[]"] by (simp_all add: ReadFull_def length_enc)

lemma ReadFull_append: "ReadFull (length a) (a @ r) = Inr (a, r)"
  by (simp add: ReadFull_def)

lemma CopyN_Discard_append: "CopyN_Discard (length a) (a @ r) = Inr r"
  by (simp add: CopyN_Discard_def)

lemma length_tags:
  "length tag_fmt = 4" "length tag_data = 4" "length tag_RIFF = 4" "length tag_WAVE = 4"
  "tag_data \<noteq> tag_fmt"
  by (simp_all add: tag_fmt_def tag_data_def tag_RIFF_def tag_WAVE_def)

lemma step_other:
  assumes "wf_chunk c" "cid c \<noteq> tag_fmt"
  shows "chunks_loop h f (enc_chunk c @ r) = chunks_loop h f r"
proof -
  from assms have l: "length (cid c) = 4" and k: "length (payload c) < 2 ^ 32"
    and d: "cid c \<noteq> tag_data" by (simp_all add: wf_chunk_def)
  show ?thesis
    apply (subst chunks_loop.simps)
    using assms(2) d k l
    by (simp add: enc_chunk_def chunks_loop_header enc32_simps Let_def unat_size
        CopyN_Discard_append skip_padding_chunk)
qed

lemma step_fmt:
  assumes "wf_chunk c" "cid c = tag_fmt" "16 \<le> length (payload c)"
  shows "chunks_loop h f (enc_chunk c @ r) = chunks_loop (parse_fmt (payload c)) True r"
proof -
  from assms have k: "length (payload c) < 2 ^ 32"
    by (simp_all add: wf_chunk_def)
  show ?thesis
    apply (subst chunks_loop.simps)
    using assms(2,3) k
    by (simp add: enc_chunk_def chunks_loop_header enc32_simps length_tags Let_def unat_size
        ReadFull_append skip_padding_chunk size_less_16)
qed

lemma step_fmt_small:
  assumes "wf_chunk c" "cid c = tag_fmt" "length (payload c) < 16"
  shows "chunks_loop h f (enc_chunk c @ r) = Inl (InvalidFmtSize (of_nat (length (payload c))))"
proof -
  from assms have k: "length (payload c) < 2 ^ 32"
    by (simp_all add: wf_chunk_def)
  show ?thesis
    apply (subst chunks_loop.simps)
    using assms(2,3) k
    by (simp add: enc_chunk_def chunks_loop_header enc32_simps length_tags Let_def size_less_16)
qed

lemma step_data:
  assumes "length dsz = 4"
  shows "chunks_loop h f (tag_data @ dsz @ r) =
     (if \<not> f then Inl DataBeforeFmt
      else if AudioFormat h \<noteq> 1 \<and> AudioFormat h \<noteq> 0xFFFE
      then Inl (UnsupportedFormat (AudioFormat h))
      else Inr (h, r))"
proof -
  have r: "ReadFull 8 (tag_data @ dsz @ r) = Inr (tag_data @ dsz, r)"
    using assms by (simp add: ReadFull_def length_tags)
  show ?thesis
    apply (subst chunks_loop.simps)
    using assms by (simp add: r length_tags Let_def)
qed

lemma walk_chunks:
  assumes "\<forall>c \<in> set cs. wf_chunk c" "\<not> fmt_too_small cs"
  shows "chunks_loop h f (concat (map enc_chunk cs) @ r) =
         chunks_loop (last_fmt h cs) (f \<or> filter is_fmt cs \<noteq> []) r"
  using assms
proof (induction cs arbitrary: h f)
  case Nil
  then show ?case by (simp add: last_fmt_def)
next
  case (Cons c cs)
  from Cons.prems have wf: "wf_chunk c" and rest: "\<forall>c \<in> set cs. wf_chunk c"
    and small: "\<not> fmt_too_small cs" and c16: "is_fmt c \<longrightarrow> 16 \<le> length (payload c)"
    by (auto simp: fmt_too_small_def)
  show ?case
  proof (cases "is_fmt c")
    case True
    then have "chunks_loop h f (enc_chunk c @ concat (map enc_chunk cs) @ r) =
        chunks_loop (parse_fmt (payload c)) True (concat (map enc_chunk cs) @ r)"
      using step_fmt [OF wf] c16 by (simp add: is_fmt_def)
    also have "\<dots> = chunks_loop (last_fmt (parse_fmt (payload c)) cs) True r"
      using Cons.IH [OF rest small, of "parse_fmt (payload c)" True] by simp
    finally show ?thesis using True by (simp add: last_fmt_def)
  next
    case False
    then have "chunks_loop h f (enc_chunk c @ concat (map enc_chunk cs) @ r) =
        chunks_loop h f (concat (map enc_chunk cs) @ r)"
      using step_other [OF wf] by (simp add: is_fmt_def)
    then show ?thesis using Cons.IH [OF rest small, of h f] False by (simp add: last_fmt_def)
  qed
qed

lemma walk_chunks_small:
  assumes "\<forall>c \<in> set cs. wf_chunk c" "fmt_too_small cs"
  shows "\<exists>w. chunks_loop h f (concat (map enc_chunk cs) @ r) = Inl (InvalidFmtSize w)"
  using assms
proof (induction cs arbitrary: h f)
  case Nil
  then show ?case by (simp add: fmt_too_small_def)
next
  case (Cons c cs)
  from Cons.prems have wf: "wf_chunk c" and rest: "\<forall>c \<in> set cs. wf_chunk c" by auto
  show ?case
  proof (cases "is_fmt c")
    case True
    show ?thesis
    proof (cases "length (payload c) < 16")
      case True
      with \<open>is_fmt c\<close> step_fmt_small [OF wf, of h f "concat (map enc_chunk cs) @ r"]
      show ?thesis by (simp add: is_fmt_def)
    next
      case False
      with Cons.prems True have small: "fmt_too_small cs" by (auto simp: fmt_too_small_def)
      from False True step_fmt [OF wf, of h f "concat (map enc_chunk cs) @ r"]
      have "chunks_loop h f (enc_chunk c @ concat (map enc_chunk cs) @ r) =
        chunks_loop (parse_fmt (payload c)) True (concat (map enc_chunk cs) @ r)"
        by (simp add: is_fmt_def)
      then show ?thesis using Cons.IH [OF rest small] by simp
    qed
  next
    case False
    with Cons.prems have small: "fmt_too_small cs" by (auto simp: fmt_too_small_def)
    from False step_other [OF wf, of h f "concat (map enc_chunk cs) @ r"]
    have "chunks_loop h f (enc_chunk c @ concat (map enc_chunk cs) @ r) =
        chunks_loop h f (concat (map enc_chunk cs) @ r)"
      by (simp add: is_fmt_def)
    then show ?thesis using Cons.IH [OF rest small] by simp
  qed
qed

lemma chunks_loop_short: "length r < 8 \<Longrightarrow> \<exists>e. chunks_loop h f r = Inl e"
  by (subst chunks_loop.simps) (simp add: ReadFull_def)

lemma length_enc_chunk:
  "length (cid c) = 4 \<Longrightarrow>
   length (enc_chunk c) = 8 + length (payload c) + (if odd (length (payload c)) then 1 else 0)"
  by (simp add: enc_chunk_def length_enc)

lemma ReadFull_short:
  "length b < n \<Longrightarrow> ReadFull n b = Inl (if b = [] then EOF else ErrUnexpectedEOF)"
  by (simp add: ReadFull_def)

lemma ReadFull_exact: "ReadFull (length b) b = Inr (b, [])"
  by (simp add: ReadFull_def)

lemma CopyN_Discard_short: "length b < n \<Longrightarrow> CopyN_Discard n b = Inl EOF"
  by (simp add: CopyN_Discard_def)

lemma CopyN_Discard_exact: "CopyN_Discard (length b) b = Inr []"
  by (simp add: CopyN_Discard_def)

lemma cut_chunk:
  assumes wf: "wf_chunk c" and n: "n < length (enc_chunk c)"
  shows "\<exists>e. chunks_loop h f (take n (enc_chunk c)) = Inl e"
proof (cases "n < 8")
  case True
  then show ?thesis by (intro chunks_loop_short) simp
next
  case False
  from wf have l: "length (cid c) = 4" and k: "length (payload c) < 2 ^ 32"
    and d: "cid c \<noteq> tag_data" by (simp_all add: wf_chunk_def)
  define body where "body = take (n - 8) (payload c @ (if odd (length (payload c)) then [padb c] else []))"
  have t: "take n (enc_chunk c) = cid c @ enc32 (of_nat (length (payload c))) @ body"
    using False l by (simp add: enc_chunk_def length_enc body_def)
  from n l have n': "n - 8 < length (payload c) + (if odd (length (payload c)) then 1 else 0)"
    using False by (simp add: length_enc_chunk)
  have b: "length body = n - 8"
    using n' by (auto simp: body_def min_def split: if_splits)
  have cases: "length body < length (payload c) \<or>
      (odd (length (payload c)) \<and> body = payload c)"
    using n' b by (auto simp: body_def split: if_splits)
  have e: "\<exists>e. chunks_loop h' f' [] = Inl e" for h' f'
    by (intro chunks_loop_short) simp
  show ?thesis
  proof (cases "cid c = tag_fmt")
    case True
    show ?thesis
    proof (cases "length (payload c) < 16")
      case True
      with \<open>cid c = tag_fmt\<close> k show ?thesis
        unfolding t
        by (subst chunks_loop.simps)
          (simp add: chunks_loop_header enc32_simps length_tags Let_def size_less_16)
    next
      case False
      from cases show ?thesis
      proof
        assume "length body < length (payload c)"
        with \<open>cid c = tag_fmt\<close> False k show ?thesis
          unfolding t
          by (subst chunks_loop.simps)
            (simp add: chunks_loop_header enc32_simps length_tags Let_def size_less_16
              unat_size ReadFull_short)
      next
        assume "odd (length (payload c)) \<and> body = payload c"
        with \<open>cid c = tag_fmt\<close> False k e [of "parse_fmt (payload c)" True] show ?thesis
          unfolding t
          by (subst chunks_loop.simps)
            (simp add: chunks_loop_header enc32_simps length_tags Let_def size_less_16
              unat_size ReadFull_exact skip_padding_def size_odd)
      qed
    qed
  next
    case False
    from cases show ?thesis
    proof
      assume "length body < length (payload c)"
      with False d k l show ?thesis
        unfolding t
        by (subst chunks_loop.simps)
          (simp add: chunks_loop_header enc32_simps Let_def unat_size CopyN_Discard_short)
    next
      assume "odd (length (payload c)) \<and> body = payload c"
      with False d k l e [of h f] show ?thesis
        unfolding t
        by (subst chunks_loop.simps)
          (simp add: chunks_loop_header enc32_simps Let_def unat_size CopyN_Discard_exact
            skip_padding_def size_odd)
    qed
  qed
qed

lemma step_any:
  assumes "wf_chunk c"
  shows "(\<exists>e. chunks_loop h f (enc_chunk c @ r) = Inl e) \<or>
         (\<exists>h1 f1. chunks_loop h f (enc_chunk c @ r) = chunks_loop h1 f1 r)"
proof (cases "cid c = tag_fmt")
  case True
  then show ?thesis
    using step_fmt [OF assms True, of h f r] step_fmt_small [OF assms True, of h f r]
    by (cases "length (payload c) < 16") auto
next
  case False
  then show ?thesis using step_other [OF assms False, of h f r] by auto
qed

lemma cut_chunks:
  assumes "\<forall>c \<in> set cs. wf_chunk c" "length dsz = 4"
    "n < length (concat (map enc_chunk cs) @ tag_data @ dsz)"
  shows "\<exists>e. chunks_loop h f (take n (concat (map enc_chunk cs) @ tag_data @ dsz)) = Inl e"
  using assms
proof (induction cs arbitrary: n h f)
  case Nil
  then show ?case by (intro chunks_loop_short) (simp add: length_tags)
next
  case (Cons c cs)
  from Cons.prems have wf: "wf_chunk c" and rest: "\<forall>c \<in> set cs. wf_chunk c" by auto
  define X where "X = concat (map enc_chunk cs) @ tag_data @ dsz"
  have whole: "concat (map enc_chunk (c # cs)) @ tag_data @ dsz = enc_chunk c @ X"
    by (simp add: X_def)
  have t: "take n (enc_chunk c @ X) = take n (enc_chunk c) @ take (n - length (enc_chunk c)) X"
    by (rule take_append)
  show ?case
  proof (cases "n < length (enc_chunk c)")
    case True
    then have t1: "take n (enc_chunk c @ X) = take n (enc_chunk c)"
      unfolding t by simp
    show ?thesis unfolding whole t1 by (rule cut_chunk [OF wf True])
  next
    case False
    then have t2: "take n (enc_chunk c @ X) = enc_chunk c @ take (n - length (enc_chunk c)) X"
      unfolding t by simp
    from False Cons.prems(3) have n: "n - length (enc_chunk c) < length X"
      unfolding whole by simp
    from Cons.IH [OF rest Cons.prems(2) n [unfolded X_def]]
    have ih: "\<exists>e. chunks_loop h1 f1 (take (n - length (enc_chunk c)) X) = Inl e" for h1 f1
      unfolding X_def .
    from step_any [OF wf, of h f "take (n - length (enc_chunk c)) X"] ih
    show ?thesis unfolding whole t2 by metis
  qed
qed

lemma ReadWavHeader_prologue:
  assumes "length m1 = 4" "length sz = 4" "length m2 = 4"
  shows "ReadWavHeader (m1 @ sz @ m2 @ r) =
     (if m1 \<noteq> tag_RIFF then Inl MissingRIFF
      else if m2 \<noteq> tag_WAVE then Inl MissingWAVE
      else chunks_loop header0 False r)"
proof -
  define H where "H = m1 @ sz @ m2"
  have rf: "ReadFull 12 (H @ r) = Inr (H, r)"
    using assms by (simp add: ReadFull_def H_def)
  have a: "take 4 H = m1" using assms by (simp add: H_def)
  have b: "take 4 (drop 8 H) = m2" using assms by (simp add: H_def)
  have "ReadWavHeader (H @ r) =
     (if m1 \<noteq> tag_RIFF then Inl MissingRIFF
      else if m2 \<noteq> tag_WAVE then Inl MissingWAVE
      else chunks_loop header0 False r)"
    by (simp add: ReadWavHeader_def rf a b header0_def)
  then show ?thesis by (simp add: H_def)
qed

lemma ReadWavHeader_complete:
  assumes "length m1 = 4" "length sz = 4" "length m2 = 4" "length dsz = 4"
    "\<forall>c \<in> set cs. wf_chunk c"
  shows "(\<exists>e. ReadWavHeader (m1 @ sz @ m2 @ concat (map enc_chunk cs) @ tag_data @ dsz @ audio) = Inl e)
     = (m1 \<noteq> tag_RIFF \<or> m2 \<noteq> tag_WAVE \<or> data_before_fmt cs \<or> unsupported_code cs \<or>
        fmt_too_small cs)"
proof (cases "fmt_too_small cs")
  case True
  from walk_chunks_small [OF assms(5) True, of header0 False "tag_data @ dsz @ audio"]
  show ?thesis using True assms(1-3)
    by (auto simp: ReadWavHeader_prologue)
next
  case False
  have "chunks_loop header0 False (concat (map enc_chunk cs) @ tag_data @ dsz @ audio) =
      chunks_loop (last_fmt header0 cs) (filter is_fmt cs \<noteq> []) (tag_data @ dsz @ audio)"
    using walk_chunks [OF assms(5) False, of header0 False "tag_data @ dsz @ audio"] by simp
  then show ?thesis using False assms(1-4)
    by (auto simp: ReadWavHeader_prologue step_data data_before_fmt_def unsupported_code_def
        last_fmt_def supported_def)
qed

lemma ReadWavHeader_cut:
  assumes "length m1 = 4" "length sz = 4" "length m2 = 4" "length dsz = 4"
    "\<forall>c \<in> set cs. wf_chunk c"
    "n < length (m1 @ sz @ m2 @ concat (map enc_chunk cs) @ tag_data @ dsz)"
  shows "\<exists>e. ReadWavHeader (take n (m1 @ sz @ m2 @ concat (map enc_chunk cs) @ tag_data @ dsz)) = Inl e"
proof (cases "n < 12")
  case True
  have "length (take n Y) \<le> n" for Y :: "byte list" by simp
  with True
  have "length (take n (m1 @ sz @ m2 @ concat (map enc_chunk cs) @ tag_data @ dsz)) < 12"
    by (meson le_less_trans)
  then show ?thesis
    unfolding ReadWavHeader_def by (simp add: ReadFull_short del: take_append)
next
  case False
  define X where "X = concat (map enc_chunk cs) @ tag_data @ dsz"
  have "take n ((m1 @ sz @ m2) @ X) = take n (m1 @ sz @ m2) @ take (n - length (m1 @ sz @ m2)) X"
    by (rule take_append)
  then have t: "take n (m1 @ sz @ m2 @ X) = m1 @ sz @ m2 @ take (n - 12) X"
    using False assms(1-3) by simp
  from assms(6) False assms(1-3) have n: "n - 12 < length X" by (simp add: X_def)
  from cut_chunks [OF assms(5,4) n [unfolded X_def], of header0 False]
  show ?thesis unfolding X_def [symmetric] t
    using assms(1-3) by (auto simp: ReadWavHeader_prologue)
qed

text \<open>
  C4. For every well-formed RIFF/WAVE stream whose chunks are a format chunk (of 16 bytes
  or more, with a format code the parser supports: 1 or 0xFFFE), then any number of
  chunks that are neither format nor data chunks, then the data chunk, the parser returns
  the header fields as the format chunk encodes them (channels, sample rate and bits per
  sample among them) and the stream that remains is the payload of the data chunk from
  its first byte. Each chunk it does not recognise is skipped whole: its 8 header bytes,
  its declared byte count, and one padding byte when that count is odd.
\<close>

theorem ReadWavHeader_well_formed:
  assumes "length sz = 4" "length dsz = 4" "supported h" "16 + length extra < 2 ^ 32"
    "\<forall>c \<in> set others. wf_chunk c \<and> cid c \<noteq> tag_fmt"
  shows
    "ReadWavHeader
       (tag_RIFF @ sz @ tag_WAVE @
        enc_chunk \<lparr>cid = tag_fmt, payload = fmt_fields h @ extra, padb = pb\<rparr> @
        concat (map enc_chunk others) @ tag_data @ dsz @ audio) = Inr (h, audio) \<and>
     (\<forall>c \<in> set others. \<forall>h0 f r.
        chunks_loop h0 f (enc_chunk c @ r) = chunks_loop h0 f r \<and>
        length (enc_chunk c) =
          8 + length (payload c) + (if odd (length (payload c)) then 1 else 0))"
proof -
  let ?fc = "\<lparr>cid = tag_fmt, payload = fmt_fields h @ extra, padb = pb\<rparr>"
  have lf: "length (fmt_fields h) = 16"
    by (simp add: fmt_fields_def length_enc)
  have wf: "\<forall>c \<in> set (?fc # others). wf_chunk c"
    using assms(4,5) by (simp add: wf_chunk_def length_tags length_tags(5) [symmetric] lf)
  have fs: "filter is_fmt (?fc # others) = [?fc]"
    using assms(5) by (induction others) (simp_all add: is_fmt_def)
  have small: "\<not> fmt_too_small (?fc # others)"
    using assms(5) by (auto simp: fmt_too_small_def is_fmt_def lf)
  have "\<not> (\<exists>e. ReadWavHeader (tag_RIFF @ sz @ tag_WAVE @ concat (map enc_chunk (?fc # others)) @
      tag_data @ dsz @ audio) = Inl e)"
    using ReadWavHeader_complete [OF length_tags(3) assms(1) length_tags(4) assms(2) wf, of audio]
      small assms(3) fs
    by (simp add: data_before_fmt_def unsupported_code_def parse_fmt_fields)
  then obtain h1 a1 where r: "ReadWavHeader (tag_RIFF @ sz @ tag_WAVE @
      concat (map enc_chunk (?fc # others)) @ tag_data @ dsz @ audio) = Inr (h1, a1)"
    by (metis sum.exhaust old.prod.exhaust)
  have "chunks_loop header0 False (concat (map enc_chunk (?fc # others)) @ tag_data @ dsz @ audio) =
      chunks_loop (last_fmt header0 (?fc # others)) (filter is_fmt (?fc # others) \<noteq> [])
        (tag_data @ dsz @ audio)"
    using walk_chunks [OF wf small, of header0 False "tag_data @ dsz @ audio"] by simp
  then have "ReadWavHeader (tag_RIFF @ sz @ tag_WAVE @
      concat (map enc_chunk (?fc # others)) @ tag_data @ dsz @ audio) = Inr (h, audio)"
    using assms(1-3) fs
    by (simp add: ReadWavHeader_prologue length_tags step_data last_fmt_def parse_fmt_fields
        supported_def)
  then have main: "ReadWavHeader (tag_RIFF @ sz @ tag_WAVE @ enc_chunk ?fc @
      concat (map enc_chunk others) @ tag_data @ dsz @ audio) = Inr (h, audio)"
    by simp
  have each: "\<forall>c \<in> set others. \<forall>h0 f r.
        chunks_loop h0 f (enc_chunk c @ r) = chunks_loop h0 f r \<and>
        length (enc_chunk c) =
          8 + length (payload c) + (if odd (length (payload c)) then 1 else 0)"
    using assms(5) step_other length_enc_chunk by (simp add: wf_chunk_def)
  from main each show ?thesis by (rule conjI)
qed


theorem ReadWavHeader_well_formed_witness:
  "ReadWavHeader
     (tag_RIFF @ [36, 0, 0, 0] @ tag_WAVE @
      enc_chunk \<lparr>cid = tag_fmt,
        payload = fmt_fields \<lparr>AudioFormat = 1, NumChannels = 2, SampleRate = 48000,
                    ByteRate = 192000, BlockAlign = 4, BitsPerSample = 16\<rparr> @ [],
        padb = 0\<rparr> @
      concat (map enc_chunk [\<lparr>cid = [0x4C, 0x49, 0x53, 0x54], payload = [9, 9, 9], padb = 0\<rparr>]) @
      tag_data @ [255, 255, 255, 255] @ [1, 2, 3, 4]) =
   Inr (\<lparr>AudioFormat = 1, NumChannels = 2, SampleRate = 48000,
          ByteRate = 192000, BlockAlign = 4, BitsPerSample = 16\<rparr>, [1, 2, 3, 4]) \<and>
   enc_chunk \<lparr>cid = [0x4C, 0x49, 0x53, 0x54], payload = [9, 9, 9], padb = 0\<rparr> =
     [0x4C, 0x49, 0x53, 0x54, 3, 0, 0, 0, 9, 9, 9, 0]"
proof -
  have e: "enc_chunk \<lparr>cid = [0x4C, 0x49, 0x53, 0x54], payload = [9, 9, 9], padb = 0\<rparr> =
     [0x4C, 0x49, 0x53, 0x54, 3, 0, 0, 0, 9, 9, 9, 0]"
    by code_simp
  have "\<forall>c \<in> set [\<lparr>cid = [0x4C, 0x49, 0x53, 0x54], payload = [9, 9, 9], padb = 0\<rparr>].
          wf_chunk c \<and> cid c \<noteq> tag_fmt"
    by (simp add: wf_chunk_def tag_fmt_def tag_data_def)
  from ReadWavHeader_well_formed [of "[36, 0, 0, 0]" "[255, 255, 255, 255]"
      "\<lparr>AudioFormat = 1, NumChannels = 2, SampleRate = 48000,
          ByteRate = 192000, BlockAlign = 4, BitsPerSample = 16\<rparr>" "[]", OF _ _ _ _ this]
  show ?thesis using e by (simp add: supported_def)
qed

text \<open>
  C5, as the claim states it, fails: a stream with the right prologue and a 16-byte PCM
  format chunk that ends there (no data chunk at all) makes the parser fail, with the
  end-of-stream error of the read of the next chunk header, and none of the four
  conditions of the claim holds of it.
\<close>

theorem ReadWavHeader_fails_on_cut_stream:
  "ReadWavHeader
     (tag_RIFF @ [36, 0, 0, 0] @ tag_WAVE @
      enc_chunk \<lparr>cid = tag_fmt,
        payload = fmt_fields \<lparr>AudioFormat = 1, NumChannels = 2, SampleRate = 48000,
                    ByteRate = 192000, BlockAlign = 4, BitsPerSample = 16\<rparr>,
        padb = 0\<rparr>) = Inl EOF \<and>
   length (fmt_fields \<lparr>AudioFormat = 1, NumChannels = 2, SampleRate = 48000,
                    ByteRate = 192000, BlockAlign = 4, BitsPerSample = 16\<rparr>) = 16 \<and>
   AudioFormat (parse_fmt (fmt_fields \<lparr>AudioFormat = 1, NumChannels = 2, SampleRate = 48000,
                    ByteRate = 192000, BlockAlign = 4, BitsPerSample = 16\<rparr>)) = 1"
  by code_simp

text \<open>
  C5, amended. Take a stream that holds, in full, a 12-byte prologue, any chunks other
  than data chunks, and the 8-byte header of a data chunk. On such a stream (whatever
  follows it) the parser fails exactly when: the prologue does not carry "RIFF" at
  offset 0 and "WAVE" at offset 8; or no format chunk comes before the data chunk; or the
  format code of the last format chunk before the data chunk is neither 1 nor 0xFFFE; or
  a format chunk declares fewer than 16 bytes. And the parser fails on every stream that
  ends earlier: on every proper prefix of such a stream.
\<close>

theorem ReadWavHeader_fails_iff:
  assumes "length m1 = 4" "length sz = 4" "length m2 = 4" "length dsz = 4"
    "\<forall>c \<in> set cs. wf_chunk c"
  shows
    "((\<exists>e. ReadWavHeader (m1 @ sz @ m2 @ concat (map enc_chunk cs) @ tag_data @ dsz @ audio) = Inl e)
       = (m1 \<noteq> tag_RIFF \<or> m2 \<noteq> tag_WAVE \<or> data_before_fmt cs \<or> unsupported_code cs \<or>
          fmt_too_small cs)) \<and>
     (\<forall>n. n < length (m1 @ sz @ m2 @ concat (map enc_chunk cs) @ tag_data @ dsz) \<longrightarrow>
        (\<exists>e. ReadWavHeader (take n (m1 @ sz @ m2 @ concat (map enc_chunk cs) @ tag_data @ dsz))
           = Inl e))"
  using ReadWavHeader_complete [OF assms, of audio] ReadWavHeader_cut [OF assms]
  by blast

theorem ReadWavHeader_fails_iff_witness:
  "(\<exists>e. ReadWavHeader
      (tag_RIFF @ [36, 0, 0, 0] @ tag_WAVE @
       concat (map enc_chunk
         [\<lparr>cid = tag_fmt,
           payload = fmt_fields \<lparr>AudioFormat = 3, NumChannels = 2, SampleRate = 48000,
                       ByteRate = 384000, BlockAlign = 8, BitsPerSample = 32\<rparr>,
           padb = 0\<rparr>]) @
       tag_data @ [0, 0, 0, 0] @ [1, 2]) = Inl e) \<and>
   (\<exists>e. ReadWavHeader
      (take 30 (tag_RIFF @ [36, 0, 0, 0] @ tag_WAVE @
       concat (map enc_chunk
         [\<lparr>cid = tag_fmt,
           payload = fmt_fields \<lparr>AudioFormat = 3, NumChannels = 2, SampleRate = 48000,
                       ByteRate = 384000, BlockAlign = 8, BitsPerSample = 32\<rparr>,
           padb = 0\<rparr>]) @
       tag_data @ [0, 0, 0, 0])) = Inl e)"
proof -
  let ?h = "\<lparr>AudioFormat = 3, NumChannels = 2, SampleRate = 48000,
              ByteRate = 384000, BlockAlign = 8, BitsPerSample = 32\<rparr>"
  let ?cs = "[\<lparr>cid = tag_fmt, payload = fmt_fields ?h, padb = 0\<rparr>]"
  have l: "length (fmt_fields ?h) = 16" by (simp add: fmt_fields_def length_enc)
  have wf: "\<forall>c \<in> set ?cs. wf_chunk c"
    by (simp add: wf_chunk_def length_tags length_tags(5) [symmetric] l)
  have u: "unsupported_code ?cs"
    using parse_fmt_fields [of ?h "[]"] by (simp add: unsupported_code_def is_fmt_def supported_def)
  have n: "30 < length (tag_RIFF @ [36, 0, 0, 0] @ tag_WAVE @ concat (map enc_chunk ?cs) @
      tag_data @ [0, 0, 0, 0 :: byte])"
    by (simp add: length_tags length_enc_chunk l)
  from ReadWavHeader_fails_iff [of tag_RIFF "[36, 0, 0, 0]" tag_WAVE "[0, 0, 0, 0]" ?cs "[1, 2]",
      OF length_tags(3) _ length_tags(4) _ wf] u n
  show ?thesis by simp
qed

subsection \<open>The volume scaler\<close>

text \<open>
  The rounding of \<open>float64\<close>: \<open>binade\<close> is the exponent it is said to be, a number
  with at most 53 significant bits is not changed, and the result is within half a unit
  in the last place of the number rounded.
\<close>

lemma binade_lower:
  assumes "0 < a"
  shows "2 powi (binade a) \<le> a"
proof (cases "1 \<le> a")
  case True
  then have p: "0 < \<lfloor>a\<rfloor>" by simp
  have nn: "0 \<le> bitlen \<lfloor>a\<rfloor> - 1" using p bitlen_bounds [OF p] by (simp add: bitlen_alt_def)
  from bitlen_bounds [OF p] have "(2::int) ^ nat (bitlen \<lfloor>a\<rfloor> - 1) \<le> \<lfloor>a\<rfloor>" by simp
  then have "(of_int ((2::int) ^ nat (bitlen \<lfloor>a\<rfloor> - 1)) :: rat) \<le> of_int \<lfloor>a\<rfloor>"
    by (simp only: of_int_le_iff)
  then have "(2::rat) ^ nat (bitlen \<lfloor>a\<rfloor> - 1) \<le> a" by (simp add: le_floor_iff)
  with True nn show ?thesis by (simp add: binade_def power_int_def)
next
  case False
  define n where "n = \<lceil>1 / a\<rceil> - 1"
  from False assms have "1 < 1 / a" by simp
  then have n1: "0 < n" unfolding n_def by (simp add: less_ceiling_iff)
  from bitlen_bounds [OF n1] have "n + 1 \<le> 2 ^ nat (bitlen n)" by simp
  then have "(of_int (n + 1) :: rat) \<le> of_int (2 ^ nat (bitlen n))" by (simp only: of_int_le_iff)
  moreover have "1 / a \<le> of_int (n + 1)" unfolding n_def by simp
  ultimately have "1 / a \<le> 2 ^ nat (bitlen n)" by simp
  then have "1 / 2 ^ nat (bitlen n) \<le> a" using assms
    by (simp add: field_simps)
  moreover have "0 \<le> bitlen n" by (rule bitlen_nonneg)
  ultimately show ?thesis using False n1
    by (simp add: binade_def power_int_def n_def [symmetric] bitlen_eq_zero_iff field_simps)
qed

lemma binade_upper:
  assumes "0 < a"
  shows "a < 2 powi (binade a + 1)"
proof (cases "1 \<le> a")
  case True
  then have p: "0 < \<lfloor>a\<rfloor>" by simp
  have nn: "0 \<le> bitlen \<lfloor>a\<rfloor>" by (rule bitlen_nonneg)
  from bitlen_bounds [OF p] have "\<lfloor>a\<rfloor> < 2 ^ nat (bitlen \<lfloor>a\<rfloor>)" by simp
  then have "a < of_int (2 ^ nat (bitlen \<lfloor>a\<rfloor>))" by (simp only: floor_less_iff)
  with True nn show ?thesis by (simp add: binade_def power_int_def)
next
  case False
  define n where "n = \<lceil>1 / a\<rceil> - 1"
  from False assms have "1 < 1 / a" by simp
  then have n1: "0 < n" unfolding n_def by (simp add: less_ceiling_iff)
  then have b1: "1 \<le> bitlen n" using bitlen_eq_zero_iff [of n] bitlen_nonneg [of n] by linarith
  from bitlen_bounds [OF n1] have "2 ^ nat (bitlen n - 1) \<le> n" by simp
  then have "(of_int (2 ^ nat (bitlen n - 1)) :: rat) \<le> of_int n" by (simp only: of_int_le_iff)
  then have "(2::rat) ^ nat (bitlen n - 1) \<le> of_int n" by simp
  moreover have "of_int n < 1 / a" unfolding n_def using ceiling_correct [of "1 / a"] by simp
  ultimately have "2 ^ nat (bitlen n - 1) < 1 / a" by (rule le_less_trans)
  then have "a < 1 / 2 ^ nat (bitlen n - 1)" using assms
    by (simp add: field_simps)
  then show ?thesis using False b1
    by (simp add: binade_def power_int_def n_def [symmetric] field_simps)
qed

lemma round_half_even_of_int: "round_half_even (of_int n) = n"
  by (simp add: round_half_even_def)

lemma round_half_even_error: "\<bar>of_int (round_half_even x) - x\<bar> \<le> 1 / 2"
proof -
  have "of_int \<lfloor>x\<rfloor> \<le> x" "x < of_int \<lfloor>x\<rfloor> + 1" by linarith+
  then show ?thesis by (auto simp: round_half_even_def Let_def)
qed

lemma round_float64_exact:
  assumes "\<bar>m\<bar> < 2 ^ 53"
  shows "round_float64 (of_int m * 2 powi k) = of_int m * 2 powi k"
proof (cases "m = 0")
  case True
  then show ?thesis by (simp add: round_float64_def)
next
  case False
  define x :: rat where "x = of_int m * 2 powi k"
  define e where "e = binade \<bar>x\<bar>"
  have p: "(0::rat) < 2 powi j" for j by (simp add: zero_less_power_int)
  have x0: "x \<noteq> 0" using False p [of k] by (simp add: x_def)
  then have ax: "0 < \<bar>x\<bar>" by simp
  define c :: rat where "c = 2 powi k"
  have c0: "0 < c" unfolding c_def by (rule p)
  have "(of_int \<bar>m\<bar> :: rat) < of_int (2 ^ 53)" using assms by (simp only: of_int_less_iff)
  then have "(of_int \<bar>m\<bar> :: rat) < 2 ^ 53" by simp
  then have lt: "of_int \<bar>m\<bar> * c < 2 ^ 53 * c"
    using c0 by (rule mult_strict_right_mono)
  have e1: "\<bar>x\<bar> = of_int \<bar>m\<bar> * c"
    using c0 by (simp add: x_def abs_mult c_def [symmetric])
  have e2: "2 ^ 53 * c = 2 powi (53 + k)"
    unfolding c_def by (simp add: power_int_add)
  from lt have "\<bar>x\<bar> < 2 powi (53 + k)" unfolding e1 [symmetric] e2 .
  with binade_lower [OF ax] have "(2::rat) powi e < 2 powi (53 + k)"
    unfolding e_def by (rule le_less_trans)
  then have "e < 53 + k"
    using power_int_increasing [of "53 + k" e "2::rat"] by (cases "e < 53 + k") auto
  then have nn: "0 \<le> k - (e - 52)" by simp
  have "x / 2 powi (e - 52) = of_int m * 2 powi (k - (e - 52))"
    by (simp add: x_def power_int_diff)
  also have "\<dots> = of_int (m * 2 ^ nat (k - (e - 52)))"
    using nn by (simp add: power_int_nonneg_exp)
  finally have q: "x / 2 powi (e - 52) = of_int (m * 2 ^ nat (k - (e - 52)))" .
  have "round_float64 x = of_int (round_half_even (x / 2 powi (e - 52))) * 2 powi (e - 52)"
    using x0 by (simp add: round_float64_def e_def Let_def)
  also have "\<dots> = x / 2 powi (e - 52) * 2 powi (e - 52)"
    unfolding q round_half_even_of_int ..
  also have "\<dots> = x" using p [of "e - 52"] by simp
  finally show ?thesis unfolding x_def .
qed

lemma round_float64_error: "\<bar>round_float64 x - x\<bar> \<le> \<bar>x\<bar> / 2 ^ 53"
proof (cases "x = 0")
  case True
  then show ?thesis by (simp add: round_float64_def)
next
  case False
  define u :: rat where "u = 2 powi (binade \<bar>x\<bar> - 52)"
  have u0: "0 < u" by (simp add: u_def zero_less_power_int)
  have r: "round_float64 x = of_int (round_half_even (x / u)) * u"
    using False by (simp add: round_float64_def u_def Let_def)
  have "round_float64 x - x = (of_int (round_half_even (x / u)) - x / u) * u"
    using u0 by (simp add: r left_diff_distrib)
  then have "\<bar>round_float64 x - x\<bar> = \<bar>of_int (round_half_even (x / u)) - x / u\<bar> * u"
    using u0 by (simp only: abs_mult abs_of_pos)
  also have "\<dots> \<le> 1 / 2 * u"
    using round_half_even_error [of "x / u"] u0 by (simp only: mult_le_cancel_right_pos)
  finally have a: "\<bar>round_float64 x - x\<bar> \<le> u / 2" by simp
  have "u = 2 powi (binade \<bar>x\<bar>) / 2 ^ 52"
    by (simp add: u_def power_int_diff)
  also have "\<dots> \<le> \<bar>x\<bar> / 2 ^ 52"
    using binade_lower [of "\<bar>x\<bar>"] False by (simp add: divide_right_mono)
  finally have "u / 2 \<le> \<bar>x\<bar> / 2 ^ 53" by simp
  with a show ?thesis by linarith
qed

text \<open>
  The constants: \<open>0.001\<close> and \<open>0.7\<close> as \<open>float64\<close>. At the factor 1 the test
  \<open>math.Abs(vol-1.0) > 0.001\<close> is false.
\<close>

lemma float64_0_001_eq: "float64_0_001 = 1152921504606847 / 2 ^ 60"
  unfolding float64_0_001_def by code_simp

lemma float64_0_7_eq: "round_float64 (7 / 10) = 3152519739159347 / 2 ^ 52"
  by code_simp

lemma float64_sub_same: "float64_sub a a = 0"
  by (simp add: float64_sub_def round_float64_def)

lemma unity_passes: "\<not> \<bar>float64_sub 1 1\<bar> > float64_0_001"
  by (simp add: float64_sub_same float64_0_001_eq)

text \<open>
  The factors the Player sets are \<open>float64(p.Volume) / 256.0\<close>. With such a factor the
  product with a sample is not rounded, and the test \<open>math.Abs(vol-1.0) > 0.001\<close> is
  true of every level but 256.
\<close>

lemma float64_mul_level:
  assumes "\<bar>x * level\<bar> < 2 ^ 53"
  shows "float64_mul (of_int x) (of_int level / 256) = of_int x * (of_int level / 256)"
proof -
  have eq: "(of_int x :: rat) * (of_int level / 256) = of_int (x * level) * 2 powi (- 8)"
    by (simp add: power_int_minus_divide)
  show ?thesis
    unfolding float64_mul_def eq by (rule round_float64_exact [OF assms])
qed

lemma level_threshold:
  assumes "\<bar>level - 256\<bar> < 2 ^ 53"
  shows "(\<bar>float64_sub (of_int level / 256) 1\<bar> > float64_0_001) = (level \<noteq> 256)"
proof -
  have eq: "(of_int level :: rat) / 256 - 1 = of_int (level - 256) * 2 powi (- 8)"
    by (simp add: power_int_minus_divide field_simps)
  have s: "float64_sub (of_int level / 256) 1 = of_int level / 256 - 1"
    unfolding float64_sub_def eq by (rule round_float64_exact [OF assms])
  show ?thesis
  proof (cases "level = 256")
    case True
    then show ?thesis using unity_passes by simp
  next
    case False
    then have "level \<le> 255 \<or> 257 \<le> level" by linarith
    then have "(of_int level :: rat) \<le> 255 \<or> (257 :: rat) \<le> of_int level"
      by (metis of_int_le_iff of_int_numeral)
    then have "1 / 256 \<le> \<bar>(of_int level :: rat) / 256 - 1\<bar>" by linarith
    moreover have "float64_0_001 < 1 / 256" by (simp add: float64_0_001_eq)
    ultimately show ?thesis using False unfolding s by simp
  qed
qed

text \<open>The loop over the samples.\<close>

lemma PutUint16_nth:
  "i + 1 < length p \<Longrightarrow> PutUint16 p i w ! i = ucast w"
  "i + 1 < length p \<Longrightarrow> PutUint16 p i w ! (i + 1) = ucast (drop_bit 8 w)"
  "j \<noteq> i \<Longrightarrow> j \<noteq> i + 1 \<Longrightarrow> PutUint16 p i w ! j = p ! j"
  "length (PutUint16 p i w) = length p"
  "Suc i < length p \<Longrightarrow> PutUint16 p i w ! Suc i = ucast (drop_bit 8 w)"
  "j \<noteq> i \<Longrightarrow> j \<noteq> Suc i \<Longrightarrow> PutUint16 p i w ! j = p ! j"
  by (simp_all add: PutUint16_def)

lemma scale_loop_length: "length (scale_loop vol i n p) = length p"
proof (induction vol i n p rule: scale_loop.induct)
  case (1 vol i n p)
  then show ?case by (subst scale_loop.simps) (simp add: PutUint16_nth)
qed

lemma scale_loop_below: "j < i \<Longrightarrow> scale_loop vol i n p ! j = p ! j"
proof (induction vol i n p rule: scale_loop.induct)
  case (1 vol i n p)
  show ?case
  proof (cases "i + 1 < n")
    case True
    with 1 show ?thesis by (subst scale_loop.simps) (simp add: PutUint16_nth)
  next
    case False
    then show ?thesis by (subst scale_loop.simps) simp
  qed
qed

lemma scale_loop_above: "n \<le> j \<Longrightarrow> scale_loop vol i n p ! j = p ! j"
proof (induction vol i n p rule: scale_loop.induct)
  case (1 vol i n p)
  show ?case
  proof (cases "i + 1 < n")
    case True
    with 1 show ?thesis by (subst scale_loop.simps) (simp add: PutUint16_nth)
  next
    case False
    then show ?thesis by (subst scale_loop.simps) simp
  qed
qed

lemma scale_loop_none: "scale_loop vol 0 0 p = p"
  by (subst scale_loop.simps) simp

lemma sample_at_cong:
  "q ! j = p ! j \<Longrightarrow> q ! (j + 1) = p ! (j + 1) \<Longrightarrow> sample_at q j = sample_at p j"
  by (simp add: sample_at_def)

lemma scale_loop_pair:
  "i \<le> j \<Longrightarrow> even (j - i) \<Longrightarrow> j + 1 < n \<Longrightarrow> n \<le> length p \<Longrightarrow>
   scale_loop vol i n p ! j =
     ucast (to_int16 (clamp_scaled (float64_mul (of_int (sample_at p j)) vol))) \<and>
   scale_loop vol i n p ! (j + 1) =
     ucast (drop_bit 8 (to_int16 (clamp_scaled (float64_mul (of_int (sample_at p j)) vol))))"
proof (induction vol i n p rule: scale_loop.induct)
  case (1 vol i n p)
  let ?w = "to_int16 (clamp_scaled (float64_mul (of_int (sample_at p i)) vol))"
  let ?p = "PutUint16 p i ?w"
  from 1(2-5) have in1: "i + 1 < n" by linarith
  have unfold: "scale_loop vol i n p = scale_loop vol (i + 2) n ?p"
    using in1 by (subst scale_loop.simps) simp
  show ?case
  proof (cases "j = i")
    case True
    have "i + 1 < length p" using in1 1(5) by linarith
    then show ?thesis unfolding unfold True
      by (simp add: scale_loop_below PutUint16_nth)
  next
    case False
    with 1(2,3) have j2: "i + 2 \<le> j" and ev: "even (j - (i + 2))"
      by presburger+
    have len: "n \<le> length ?p" using 1(5) by (simp add: PutUint16_nth)
    have same: "sample_at ?p j = sample_at p j"
      using j2 by (intro sample_at_cong) (simp_all add: PutUint16_nth)
    from 1(1) [OF in1 j2 ev 1(4) len] show ?thesis unfolding unfold same .
  qed
qed

lemma trunc_clamp: "trunc_rat (clamp_scaled x) = clamp_int16 (trunc_rat x)"
proof -
  consider "x > 32767" | "x < - 32768" | "- 32768 \<le> x" "x \<le> 32767" by linarith
  then show ?thesis
  proof cases
    case 1
    then have "32767 \<le> \<lfloor>x\<rfloor>" by (simp add: le_floor_iff)
    with 1 show ?thesis by (simp add: trunc_rat_def clamp_scaled_def clamp_int16_def)
  next
    case 2
    then have "\<lceil>x\<rceil> \<le> - 32768" by (simp add: ceiling_le_iff)
    with 2 show ?thesis by (simp add: trunc_rat_def clamp_scaled_def clamp_int16_def)
  next
    case 3
    then have "- 32768 \<le> \<lfloor>x\<rfloor>" "\<lfloor>x\<rfloor> \<le> 32767" "- 32768 \<le> \<lceil>x\<rceil>" "\<lceil>x\<rceil> \<le> 32767"
      by (simp_all add: le_floor_iff floor_le_iff ceiling_le_iff le_ceiling_iff)
    with 3 show ?thesis by (simp add: trunc_rat_def clamp_scaled_def clamp_int16_def)
  qed
qed

lemma clamp_int16_range: "- 32768 \<le> clamp_int16 y \<and> clamp_int16 y \<le> 32767"
  by (simp add: clamp_int16_def)

lemma sint_to_int16: "sint (to_int16 (clamp_scaled x)) = clamp_int16 (trunc_rat x)"
proof -
  have "to_int16 (clamp_scaled x) = word_of_int (clamp_int16 (trunc_rat x))"
    using trunc_clamp [of x] by (simp add: to_int16_def trunc_rat_def)
  moreover have "sint (word_of_int (clamp_int16 (trunc_rat x)) :: 16 word) = clamp_int16 (trunc_rat x)"
    using clamp_int16_range [of "trunc_rat x"]
    by (simp add: sint_sbintrunc' signed_take_bit_int_eq_self)
  ultimately show ?thesis by simp
qed

lemma Uint16_bytes: "Uint16 [ucast w, ucast (drop_bit 8 w)] = w"
  using Uint16_enc16 [of w "[]"] by (simp add: enc16_def)

lemma scale_loop_sample:
  assumes "even j" "j + 1 < n" "n \<le> length p"
  shows "sample_at (scale_loop vol 0 n p) j =
     clamp_int16 (trunc_rat (float64_mul (of_int (sample_at p j)) vol))"
proof -
  from scale_loop_pair [of 0 j n p vol] assms
  have "scale_loop vol 0 n p ! j =
      ucast (to_int16 (clamp_scaled (float64_mul (of_int (sample_at p j)) vol)))"
    and "scale_loop vol 0 n p ! (j + 1) =
      ucast (drop_bit 8 (to_int16 (clamp_scaled (float64_mul (of_int (sample_at p j)) vol))))"
    by simp_all
  then show ?thesis by (simp add: sample_at_def Uint16_bytes sint_to_int16)
qed

lemma sample_at_range: "- 32768 \<le> sample_at p i \<and> sample_at p i \<le> 32767"
  using sint_ge [of "Uint16 [p ! i, p ! (i + 1)]"] sint_lt [of "Uint16 [p ! i, p ! (i + 1)]"]
  by (simp add: sample_at_def)

lemma sample_at_prefix: "i + 1 < length d \<Longrightarrow> sample_at (d @ q) i = sample_at d i"
  by (simp add: sample_at_def nth_append)

text \<open>
  \<open>Read\<close> as one equation. The bytes of a read are the byte withheld by the read before,
  if there is one, followed by the bytes \<open>d\<close> the source delivers; they lie at the head of
  the buffer. The read returns the largest even number of them, scaled over the whole
  pairs from the head of the buffer on, and withholds the byte that is left over.
\<close>

lemma source_Read_length: "source_Read c s = (d, e, s1) \<Longrightarrow> length d \<le> c"
  by (auto simp: source_Read_def split: list.splits if_splits)

lemma Read_finish:
  assumes "n = length inp" "take n buf = inp" "n \<le> length buf" "leftover v1 = []"
  shows
    "(if n > 0
      then
        let (n1, v2) =
              (if n mod 2 \<noteq> 0
               then (n - 1, v1\<lparr>leftover := [buf ! (n - 1)]\<rparr>)
               else (n, v1));
            vol = volume v2
        in if \<bar>float64_sub vol 1\<bar> > float64_0_001
           then (n1, err, scale_loop vol 0 n1 buf, v2)
           else (n1, err, buf, v2)
      else (n, err, buf, v1)) =
     (2 * (n div 2), err,
      (if \<bar>float64_sub (volume v1) 1\<bar> > float64_0_001
       then scale_loop (volume v1) 0 (2 * (n div 2)) buf else buf),
      v1\<lparr>leftover := drop (2 * (n div 2)) inp\<rparr>)"
proof -
  have v: "v1\<lparr>leftover := []\<rparr> = v1" using assms(4) by simp
  consider "n = 0" | "0 < n" "even n" | "odd n" by (cases "n = 0") auto
  then show ?thesis
  proof cases
    case 1
    with assms(1) v show ?thesis by (simp add: scale_loop_none)
  next
    case 2
    then have h: "2 * (n div 2) = n" by simp
    have m: "n mod 2 = 0" using 2 by presburger
    have "drop n inp = []" using assms(1) by simp
    with 2 v m show ?thesis unfolding h by simp
  next
    case 3
    then have h: "2 * (n div 2) = n - 1" and pos: "0 < n" and m: "n mod 2 = 1"
      by presburger+
    have "buf ! (n - 1) = inp ! (n - 1)"
      using pos assms(2) by (metis diff_less nth_take zero_less_one)
    moreover have "drop (n - 1) inp = [inp ! (n - 1)]"
      using pos assms(1)
      by (metis Cons_nth_drop_Suc Suc_diff_1 diff_less drop_all order_refl zero_less_one)
    ultimately show ?thesis using pos m unfolding h by simp
  qed
qed

lemma Read_unfold:
  assumes "length (leftover v) \<le> 1" "length (leftover v) < length p"
    "source_Read (length p - length (leftover v)) (reader v) = (d, e, s1)"
  shows "Read p v =
     (2 * ((length (leftover v) + length d) div 2), e,
      (if \<bar>float64_sub (volume v) 1\<bar> > float64_0_001
       then scale_loop (volume v) 0 (2 * ((length (leftover v) + length d) div 2))
              ((leftover v @ d) @ drop (length (leftover v) + length d) p)
       else (leftover v @ d) @ drop (length (leftover v) + length d) p),
      v\<lparr>reader := s1,
        leftover := drop (2 * ((length (leftover v) + length d) div 2)) (leftover v @ d)\<rparr>)"
proof (cases "leftover v")
  case Nil
  define buf where "buf = d @ drop (length d) p"
  have ld: "length d \<le> length p"
    using source_Read_length [OF assms(3)] by simp
  have f: "take (length d) buf = d" "length d \<le> length buf"
    "leftover (v\<lparr>reader := s1\<rparr>) = []"
    using ld Nil by (simp_all add: buf_def)
  have p: "p \<noteq> []" using assms(2) by auto
  have "Read p v =
     (if length d > 0
      then
        let (n1, v2) =
              (if length d mod 2 \<noteq> 0
               then (length d - 1, (v\<lparr>reader := s1\<rparr>)\<lparr>leftover := [buf ! (length d - 1)]\<rparr>)
               else (length d, v\<lparr>reader := s1\<rparr>));
            vol = volume v2
        in if \<bar>float64_sub vol 1\<bar> > float64_0_001
           then (n1, e, scale_loop vol 0 n1 buf, v2)
           else (n1, e, buf, v2)
      else (length d, e, buf, v\<lparr>reader := s1\<rparr>))"
    using assms(3) Nil p by (simp add: Read_def Let_def buf_def)
  also note Read_finish [OF refl f]
  finally show ?thesis using Nil by (simp add: buf_def)
next
  case (Cons b bs)
  with assms(1) have lo: "leftover v = [b]" by simp
  define buf where "buf = b # d @ drop (Suc (length d)) p"
  from assms(2) lo obtain x y ys where p: "p = x # y # ys"
    by (cases p; cases "tl p") auto
  have src: "source_Read (Suc (length ys)) (reader v) = (d, e, s1)"
    using assms(3) lo p by simp
  have ld: "length d \<le> Suc (length ys)"
    using source_Read_length [OF src] .
  have f: "take (Suc (length d)) buf = b # d" "Suc (length d) \<le> length buf"
    "leftover (v\<lparr>leftover := [], reader := s1\<rparr>) = []"
    using ld p by (simp_all add: buf_def)
  have n: "Suc (length d) = length (b # d)" by simp
  have "Read p v =
     (if Suc (length d) > 0
      then
        let (n1, v2) =
              (if Suc (length d) mod 2 \<noteq> 0
               then (Suc (length d) - 1,
                     (v\<lparr>leftover := [], reader := s1\<rparr>)\<lparr>leftover := [buf ! (Suc (length d) - 1)]\<rparr>)
               else (Suc (length d), v\<lparr>leftover := [], reader := s1\<rparr>));
            vol = volume v2
        in if \<bar>float64_sub vol 1\<bar> > float64_0_001
           then (n1, e, scale_loop vol 0 n1 buf, v2)
           else (n1, e, buf, v2)
      else (Suc (length d), e, buf, v\<lparr>leftover := [], reader := s1\<rparr>))"
    using src lo by (simp add: Read_def Let_def buf_def p)
  also note Read_finish [OF n f]
  finally show ?thesis using lo by (simp add: buf_def)
qed

text \<open>
  The two reads the equation leaves out: into an empty buffer, and into a buffer of one
  byte when a byte is withheld. With them, no read leaves more than one byte withheld.
\<close>

lemma Read_empty_buffer: "Read [] v = (0, None, [], v)"
  by (simp add: Read_def)

lemma Read_one_byte_buffer:
  "leftover v = [b] \<Longrightarrow> Read [x] v = (1, None, [b], v\<lparr>leftover := []\<rparr>)"
  by (simp add: Read_def)

lemma Read_keeps_one_byte:
  assumes "length (leftover v) \<le> 1"
  shows "length (leftover (snd (snd (snd (Read p v))))) \<le> 1"
proof (cases "length (leftover v) < length p")
  case True
  obtain d e s1 where s: "source_Read (length p - length (leftover v)) (reader v) = (d, e, s1)"
    by (cases "source_Read (length p - length (leftover v)) (reader v)")
  have "length (leftover v @ d) - 2 * (length (leftover v @ d) div 2) \<le> 1" by presburger
  then show ?thesis unfolding Read_unfold [OF assms True s] by simp
next
  case False
  with assms consider "p = []" | b x where "leftover v = [b]" "p = [x]"
    by (cases p; cases "leftover v"; cases "tl p") auto
  then show ?thesis
  proof cases
    case 1
    with assms show ?thesis by (simp add: Read_empty_buffer)
  next
    case 2
    then show ?thesis by (simp add: Read_one_byte_buffer)
  qed
qed

text \<open>
  C1, as the claim states it, fails: the sample 7 at the factor 1/4 (Volume 64) comes out
  as 1, the product 1.75 with its fraction discarded, and not as 2, the product rounded.
\<close>

theorem Read_truncates:
  "Read [0, 0]
     (PCM_SetVolume (64 / 256) (NewPCMVolume \<lparr>pending = [([7, 0], None)], final_err = EOF\<rparr>)) =
   (2, None, [1, 0],
    \<lparr>reader = \<lparr>pending = [], final_err = EOF\<rparr>, volume = 1 / 4, leftover = []\<rparr>) \<and>
   sample_at [7, 0] 0 = 7 \<and> sample_at [1, 0] 0 = 1 \<and>
   clamp_int16 (round (7 * (64 / 256 :: rat))) = 2"
  by code_simp

text \<open>
  The product is the \<open>float64\<close> product. At the factor 0.7 (as a \<open>float64\<close>, a little
  below 7/10) the samples 10, -10 and 30 come out as 7, -7 and 21: the products round
  to 7, -7 and 21 as \<open>float64\<close>, where the products of the numbers are a little nearer
  to zero, and would be cut to 6, -6 and 20. And a factor within 0.001 of 1 leaves the
  samples as they are: at the factor 1.0005 the sample 30000 stays 30000.
\<close>

lemma Read_rounds_product:
  "Read [0, 0, 0, 0, 0, 0]
     (PCM_SetVolume (round_float64 (7 / 10))
       (NewPCMVolume \<lparr>pending = [([10, 0, 0xF6, 0xFF, 30, 0], None)], final_err = EOF\<rparr>)) =
   (6, None, [7, 0, 0xF9, 0xFF, 21, 0],
    \<lparr>reader = \<lparr>pending = [], final_err = EOF\<rparr>, volume = round_float64 (7 / 10),
      leftover = []\<rparr>) \<and>
   map (sample_at [10, 0, 0xF6, 0xFF, 30, 0]) [0, 2, 4] = [10, - 10, 30] \<and>
   map (sample_at [7, 0, 0xF9, 0xFF, 21, 0]) [0, 2, 4] = [7, - 7, 21] \<and>
   map (\<lambda>x. trunc_rat (of_int x * round_float64 (7 / 10))) [10, - 10, 30] = [6, - 6, 20]"
  by code_simp

lemma Read_passes_near_one:
  "Read [0, 0]
     (PCM_SetVolume (round_float64 (10005 / 10000))
       (NewPCMVolume \<lparr>pending = [([0x30, 0x75], None)], final_err = EOF\<rparr>)) =
   (2, None, [0x30, 0x75],
    \<lparr>reader = \<lparr>pending = [], final_err = EOF\<rparr>, volume = round_float64 (10005 / 10000),
      leftover = []\<rparr>) \<and>
   sample_at [0x30, 0x75] 0 = 30000 \<and>
   clamp_int16 (trunc_rat (float64_mul 30000 (round_float64 (10005 / 10000)))) = 30015"
  by code_simp

text \<open>
  C1, amended. A read through the scaler, with the factor \<open>f = volume v\<close>, into a buffer
  that has room beyond the byte withheld by the read before: the bytes of the read are
  that byte, if there is one, followed by the bytes the source delivers, and the read
  returns the error of the source and the largest even number \<open>n\<close> of these bytes, as
  whole little-endian int16 samples. When \<open>f\<close> differs from 1 by more than 0.001 (as
  \<open>float64\<close>), each output sample is the \<open>float64\<close> product of the input sample and
  \<open>f\<close>, with its fraction discarded (rounded towards zero, not to the nearest integer),
  clamped to [-32768, 32767]. Otherwise each output sample is the input sample and the
  output bytes are the input bytes; this is so at \<open>f = 1\<close>. The byte beyond \<open>n\<close>, if
  there is one, is withheld for the next read.
\<close>

theorem Read_scales:
  assumes "length (leftover v) \<le> 1" and "length (leftover v) < length p"
    and "source_Read (length p - length (leftover v)) (reader v) = (d, e, s1)"
    and "inp = leftover v @ d" and "n = 2 * (length inp div 2)"
  shows "\<exists>p1 v1. Read p v = (n, e, p1, v1) \<and> length p1 = length p \<and>
     (\<forall>i. 2 * i + 1 < length inp \<longrightarrow>
        sample_at p1 (2 * i) =
          (if \<bar>float64_sub (volume v) 1\<bar> > float64_0_001
           then clamp_int16 (trunc_rat (float64_mul (of_int (sample_at inp (2 * i))) (volume v)))
           else sample_at inp (2 * i))) \<and>
     (\<not> \<bar>float64_sub (volume v) 1\<bar> > float64_0_001 \<longrightarrow> take n p1 = take n inp) \<and>
     (volume v = 1 \<longrightarrow> take n p1 = take n inp) \<and>
     reader v1 = s1 \<and> volume v1 = volume v \<and> leftover v1 = drop n inp \<and>
     length (leftover v1) \<le> 1"
proof -
  define buf where "buf = inp @ drop (length inp) p"
  define p1 where "p1 =
     (if \<bar>float64_sub (volume v) 1\<bar> > float64_0_001 then scale_loop (volume v) 0 n buf else buf)"
  define v1 where "v1 = v\<lparr>reader := s1, leftover := drop n inp\<rparr>"
  have R: "Read p v = (n, e, p1, v1)"
    using Read_unfold [OF assms(1-3)]
    by (simp add: p1_def v1_def buf_def assms(4,5))
  have "length d \<le> length p - length (leftover v)"
    using assms(3) by (rule source_Read_length)
  then have li: "length inp \<le> length p" using assms(2,4) by simp
  then have lb: "length buf = length p" by (simp add: buf_def)
  have ni: "n \<le> length inp" unfolding assms(5) by presburger
  have len: "length p1 = length p" by (simp add: p1_def lb scale_loop_length)
  have pre: "sample_at buf (2 * i) = sample_at inp (2 * i)" if "2 * i + 1 < length inp" for i
    unfolding buf_def using that by (rule sample_at_prefix)
  have below: "2 * i + 1 < n" if "2 * i + 1 < length inp" for i
    using that unfolding assms(5) by presburger
  have tk: "take n buf = take n inp" using ni by (simp add: buf_def)
  have samples: "\<forall>i. 2 * i + 1 < length inp \<longrightarrow>
        sample_at p1 (2 * i) =
          (if \<bar>float64_sub (volume v) 1\<bar> > float64_0_001
           then clamp_int16 (trunc_rat (float64_mul (of_int (sample_at inp (2 * i))) (volume v)))
           else sample_at inp (2 * i))"
  proof (intro allI impI)
    fix i assume i: "2 * i + 1 < length inp"
    show "sample_at p1 (2 * i) =
          (if \<bar>float64_sub (volume v) 1\<bar> > float64_0_001
           then clamp_int16 (trunc_rat (float64_mul (of_int (sample_at inp (2 * i))) (volume v)))
           else sample_at inp (2 * i))"
    proof (cases "\<bar>float64_sub (volume v) 1\<bar> > float64_0_001")
      case True
      have "sample_at (scale_loop (volume v) 0 n buf) (2 * i) =
          clamp_int16 (trunc_rat (float64_mul (of_int (sample_at buf (2 * i))) (volume v)))"
        using below [OF i] ni li lb by (intro scale_loop_sample) simp_all
      with True show ?thesis by (simp add: p1_def pre [OF i])
    next
      case False
      then show ?thesis by (simp add: p1_def pre [OF i])
    qed
  qed
  have same: "\<not> \<bar>float64_sub (volume v) 1\<bar> > float64_0_001 \<longrightarrow> take n p1 = take n inp"
    by (simp add: p1_def tk)
  have one: "volume v = 1 \<longrightarrow> take n p1 = take n inp"
    using unity_passes by (simp add: p1_def tk)
  have lo: "length (drop n inp) \<le> 1" unfolding assms(5) length_drop by presburger
  have v: "reader v1 = s1" "volume v1 = volume v" "leftover v1 = drop n inp"
    by (simp_all add: v1_def)
  from R len samples same one v lo show ?thesis by auto
qed

theorem Read_scales_witness:
  "length (leftover \<lparr>reader = \<lparr>pending = [([0, 0xF6, 0xFF, 30], None)], final_err = EOF\<rparr>,
      volume = round_float64 (7 / 10), leftover = [10]\<rparr>) \<le> 1 \<and>
   source_Read 5 \<lparr>pending = [([0, 0xF6, 0xFF, 30], None)], final_err = EOF\<rparr> =
     ([0, 0xF6, 0xFF, 30], None, \<lparr>pending = [], final_err = EOF\<rparr>) \<and>
   (\<exists>p1 v1. Read [0, 0, 0, 0, 0, 0]
       \<lparr>reader = \<lparr>pending = [([0, 0xF6, 0xFF, 30], None)], final_err = EOF\<rparr>,
        volume = round_float64 (7 / 10), leftover = [10]\<rparr> = (4, None, p1, v1) \<and>
      sample_at p1 0 = 7 \<and> sample_at p1 2 = - 7 \<and> leftover v1 = [30])"
proof -
  let ?s = "\<lparr>pending = [([0, 0xF6, 0xFF, 30], None)], final_err = EOF\<rparr>"
  let ?v = "\<lparr>reader = ?s, volume = round_float64 (7 / 10), leftover = [10]\<rparr>"
  have s: "source_Read 5 ?s = ([0, 0xF6, 0xFF, 30], None, \<lparr>pending = [], final_err = EOF\<rparr>)"
    by (simp add: source_Read_def)
  have h: "length (leftover ?v) \<le> 1" "length (leftover ?v) < length [0, 0, 0, 0, 0, 0 :: byte]"
    "source_Read (length [0, 0, 0, 0, 0, 0 :: byte] - length (leftover ?v)) (reader ?v) =
       ([0, 0xF6, 0xFF, 30], None, \<lparr>pending = [], final_err = EOF\<rparr>)"
    "[10, 0, 0xF6, 0xFF, 30] = leftover ?v @ [0, 0xF6, 0xFF, 30]"
    "4 = 2 * (length [10, 0, 0xF6, 0xFF, 30 :: byte] div 2)"
    by (simp_all add: source_Read_def)
  have t: "\<bar>float64_sub (round_float64 (7 / 10)) 1\<bar> > float64_0_001"
    unfolding float64_0_001_def by code_simp
  have f: "clamp_int16 (trunc_rat (float64_mul
        (of_int (sample_at [10, 0, 0xF6, 0xFF, 30] 0)) (round_float64 (7 / 10)))) = 7"
    "clamp_int16 (trunc_rat (float64_mul
        (of_int (sample_at [10, 0, 0xF6, 0xFF, 30] 2)) (round_float64 (7 / 10)))) = - 7"
    by code_simp+
  from Read_scales [OF h]
  obtain p1 v1 where r: "Read [0, 0, 0, 0, 0, 0] ?v = (4, None, p1, v1)"
    and a: "\<forall>i. 2 * i + 1 < length [10, 0, 0xF6, 0xFF, 30 :: byte] \<longrightarrow>
        sample_at p1 (2 * i) =
          (if \<bar>float64_sub (volume ?v) 1\<bar> > float64_0_001
           then clamp_int16 (trunc_rat (float64_mul
                  (of_int (sample_at [10, 0, 0xF6, 0xFF, 30] (2 * i))) (volume ?v)))
           else sample_at [10, 0, 0xF6, 0xFF, 30] (2 * i))"
    and l: "leftover v1 = drop 4 [10, 0, 0xF6, 0xFF, 30]"
    by blast
  from a [rule_format, of 0] a [rule_format, of 1] t
  have "sample_at p1 0 = 7" "sample_at p1 2 = - 7"
    by (simp_all add: f)
  with r l h(1) s show ?thesis by auto
qed

text \<open>
  The odd byte of a read is withheld and delivered with the next one: when the source
  delivers 3841 bytes and then 1 byte, at the factor 1, the first read returns 3840 bytes
  and the second 2, and the 3842 bytes returned are the bytes of the source in order.
\<close>

lemma Read_odd_then_one:
  assumes "leftover v = []" "volume v = 1"
    "pending (reader v) = (d1, None) # ([x], None) # rest"
    "length d1 = 3841" "3841 \<le> length p" "2 \<le> length q"
  shows "\<exists>p1 v1 q1 v2.
     Read p v = (3840, None, p1, v1) \<and> Read q v1 = (2, None, q1, v2) \<and>
     take 3840 p1 @ take 2 q1 = d1 @ [x] \<and> leftover v2 = []"
proof -
  from assms(6) obtain a b bs where q: "q = a # b # bs"
    by (cases q; cases "tl q") auto
  have d: "d1 \<noteq> []" "p \<noteq> []" using assms(4,5) by auto
  have last: "take 3840 d1 @ [d1 ! 3840] = d1"
    using assms(4) take_Suc_conv_app_nth [of 3840 d1] by simp
  have u: "\<not> float64_0_001 < \<bar>float64_sub 1 1\<bar>" using unity_passes by simp
  have r1: "Read p v = (3840, None, d1 @ drop 3841 p,
      v\<lparr>reader := (reader v)\<lparr>pending := ([x], None) # rest\<rparr>, leftover := [d1 ! 3840]\<rparr>)"
    using assms(1-5) d u
    by (simp add: Read_def source_Read_def Let_def nth_append)
  have r2: "Read q (v\<lparr>reader := (reader v)\<lparr>pending := ([x], None) # rest\<rparr>, leftover := [d1 ! 3840]\<rparr>) =
      (2, None, d1 ! 3840 # x # bs,
       v\<lparr>reader := (reader v)\<lparr>pending := rest\<rparr>, leftover := []\<rparr>)"
    using assms(2) u by (simp add: Read_def source_Read_def Let_def q)
  show ?thesis using r1 r2 last assms(4) by simp
qed

text \<open>
  Once the source is at its end, a byte that is withheld stays withheld: a read into a
  buffer of two or more bytes returns no byte and the error of the source, and leaves the
  scaler as it was.
\<close>

lemma Read_stuck:
  assumes "leftover v = [b]" "pending (reader v) = []" "2 \<le> length p"
  shows "Read p v = (0, Some (final_err (reader v)), p[0 := b], v)"
proof -
  from assms(3) obtain x y ys where p: "p = x # y # ys"
    by (cases p; cases "tl p") auto
  have v: "v\<lparr>leftover := [], reader := reader v, leftover := [b]\<rparr> = v"
    using assms(1) by simp
  show ?thesis
    using assms(1,2) v by (simp add: Read_def source_Read_def Let_def p scale_loop_none)
qed

text \<open>
  C2. The claim does not hold of the code on a stream with an odd number of bytes. The
  source holds the three bytes 1, 2, 3 and then is at its end. The first read returns the
  two bytes 1, 2 and withholds 3. The second read puts 3 at the head of the buffer,
  gets no byte and the end-of-stream error from the source, withholds 3 again, and returns
  no byte together with the error; so does every later read. The byte 3 never reaches
  the caller.
\<close>

theorem Read_withholds_last_byte:
  "Read [0, 0, 0, 0] (NewPCMVolume \<lparr>pending = [([1, 2, 3], None)], final_err = EOF\<rparr>) =
     (2, None, [1, 2, 3, 0],
      \<lparr>reader = \<lparr>pending = [], final_err = EOF\<rparr>, volume = 1, leftover = [3]\<rparr>) \<and>
   Read [0, 0, 0, 0] \<lparr>reader = \<lparr>pending = [], final_err = EOF\<rparr>, volume = 1, leftover = [3]\<rparr> =
     (0, Some EOF, [3, 0, 0, 0],
      \<lparr>reader = \<lparr>pending = [], final_err = EOF\<rparr>, volume = 1, leftover = [3]\<rparr>)"
  by code_simp

end
